theory Spec2Isabelle
  imports Complex_Main
begin

section \<open>JavaScript values and the document\<close>

text \<open>
  The list is configured with an array \<open>items\<close> whose elements may be strings, DOM elements or
  any other JavaScript value. Only what the two source files inspect is kept: truthiness,
  \<open>typeof x === 'string'\<close> (the value is a \<open>JStr\<close>) and \<open>typeof x !== "undefined"\<close>.
  \<open>JNode r\<close> is a reference to the DOM element stored at address \<open>r\<close> of the document heap;
  \<open>JObj\<close> stands for an object that is not a DOM element (it has no \<open>classList\<close>). Numbers
  are integers (no NaN, no fractions).
\<close>

datatype jsval = JUndefined | JNull | JBool bool | JNum int | JStr string | JNode nat | JObj

fun truthy :: "jsval \<Rightarrow> bool" where
  "truthy JUndefined = False"
| "truthy JNull = False"
| "truthy (JBool b) = b"
| "truthy (JNum n) = (n \<noteq> 0)"
| "truthy (JStr s) = (s \<noteq> [])"
| "truthy (JNode r) = True"
| "truthy JObj = True"

fun is_undefined :: "jsval \<Rightarrow> bool" where
  "is_undefined JUndefined = True"
| "is_undefined x = False"

text \<open>\<open>items[i]\<close>: reading a JavaScript array past its end gives \<open>undefined\<close>.\<close>

definition item_at :: "jsval list \<Rightarrow> nat \<Rightarrow> jsval" where
  "item_at xs i = (if i < length xs then xs ! i else JUndefined)"

text \<open>
  A DOM element, reduced to what the program reads or writes: its text-node children
  (\<open>texts\<close>, in document order), the style properties \<open>height\<close>, \<open>top\<close> (in px), \<open>display\<close>
  and \<open>position\<close>, and its class list. The document heap is a list of elements; an element's
  address is its position, and \<open>document.createElement\<close> allocates at the end.
\<close>

record dom_node =
  texts :: "string list"
  height :: "nat option"
  display :: string
  position :: string
  top :: "nat option"
  classes :: "string list"

definition new_div :: dom_node where
  "new_div = \<lparr>texts = [], height = None, display = [], position = [], top = None, classes = []\<rparr>"

definition textContent :: "dom_node \<Rightarrow> string" where
  "textContent n = concat (texts n)"

definition classList_add :: "string \<Rightarrow> dom_node \<Rightarrow> dom_node" where
  "classList_add c n = (if c \<in> set (classes n) then n else n\<lparr>classes := classes n @ [c]\<rparr>)"

text \<open>Assignment to a property of the element at address \<open>r\<close>.\<close>

definition modify :: "nat \<Rightarrow> (dom_node \<Rightarrow> dom_node) \<Rightarrow> dom_node list \<Rightarrow> dom_node list" where
  "modify r f hp = (if r < length hp then hp[r := f (hp ! r)] else hp)"

section \<open>The materialized-row table\<close>

text \<open>
  \<open>itemsInContainer\<close> is a JavaScript object keyed by row index, holding
  \<open>{status: 0/1, node: DOMNode}\<close>; status 0 is \<open>Stale\<close> (hidden, pending deletion), status 1 is
  \<open>Active\<close>. \<open>Object.keys\<close> lists integer keys in ascending order, each once, so the table is
  an association list that assignment keeps in key order.
\<close>

datatype status = Stale | Active

record entry =
  status :: status
  node :: nat

type_synonym table = "(nat \<times> entry) list"

definition tbl_set :: "nat \<Rightarrow> entry \<Rightarrow> table \<Rightarrow> table" where
  "tbl_set k e t = filter (\<lambda>p. fst p < k) t @ (k, e) # filter (\<lambda>p. k < fst p) t"

definition tbl_delete :: "nat \<Rightarrow> table \<Rightarrow> table" where
  "tbl_delete k t = filter (\<lambda>p. fst p \<noteq> k) t"

definition object_keys :: "table \<Rightarrow> nat list" where
  "object_keys t = map fst t"

section \<open>The list object\<close>

text \<open>
  The fields of a \<open>VirtualList\<close> instance, the variables its constructor closes over
  (\<open>screenItemsLen\<close>, \<open>maxBuffer\<close>, \<open>lastRepaintY\<close>, \<open>lastScrolled\<close>), the child list of
  \<open>this.container\<close> (the scroller first) and the document heap. \<open>lastRepaintY\<close> is
  \<open>undefined\<close> (\<open>None\<close>) until the first repaint.
\<close>

record vlist =
  itemHeight :: nat
  items :: "jsval list"
  itemsInContainer :: table
  totalRows :: nat
  cachedItemsLen :: nat
  container :: "nat list"
  screenItemsLen :: nat
  maxBuffer :: nat
  lastRepaintY :: "int option"
  lastScrolled :: int
  heap :: "dom_node list"

datatype error = TypeError | NotFoundError

subsection \<open>Row factory (src/vlist.js, \<open>generatorFn\<close>)\<close>

text \<open>
  \<open>if (this.items && this.items[i])\<close>: \<open>this.items\<close> is always an array, so the test is the
  truthiness of the item. The result is the returned value and the heap after the call.
\<close>

definition generatorFn :: "vlist \<Rightarrow> nat \<Rightarrow> jsval \<times> dom_node list" where
  "generatorFn v i =
     (let it = item_at (items v) i in
      if truthy it then
        (case it of
           JStr s \<Rightarrow> (JNode (length (heap v)),
                      heap v @ [new_div\<lparr>texts := [s], height := Some (itemHeight v)\<rparr>])
         | _ \<Rightarrow> (it, heap v))
      else (JNode (length (heap v)), heap v @ [new_div\<lparr>height := Some (itemHeight v)\<rparr>]))"

subsection \<open>Row factory of the second variant (src/unnamed/part\_000, \<open>generatorFn\<close>)\<close>

text \<open>
  \<open>generatorFn(items, i, itemHeight)\<close> tests \<open>typeof items[i] !== "undefined"\<close>; a value that
  is not a string is returned as it is, before the height is set.
\<close>

definition generatorFn2 :: "jsval list \<Rightarrow> nat \<Rightarrow> nat \<Rightarrow> dom_node list \<Rightarrow> jsval \<times> dom_node list" where
  "generatorFn2 its i ih hp =
     (let it = item_at its i in
      if \<not> is_undefined it then
        (case it of
           JStr s \<Rightarrow> (JNode (length hp), hp @ [new_div\<lparr>texts := [s], height := Some ih\<rparr>])
         | _ \<Rightarrow> (it, hp))
      else (JNode (length hp), hp @ [new_div\<lparr>height := Some ih\<rparr>]))"

section \<open>Rendering a chunk (src/vlist.js)\<close>

text \<open>
  \<open>createRow\<close> calls the factory, then sets the class, display, position and top of what it
  returned and records it as Active. A value that is not a DOM element has no \<open>classList\<close>,
  so \<open>item.classList.add\<close> throws a TypeError; the model ends the run there.
\<close>

definition createRow :: "nat \<Rightarrow> vlist \<Rightarrow> error + (nat \<times> vlist)" where
  "createRow i v =
     (case generatorFn v i of
        (JNode r, hp) \<Rightarrow>
          Inr (r, v\<lparr>heap := modify r (\<lambda>n. (classList_add ''vrow'' n)
                                   \<lparr>display := [], position := ''absolute'',
                                    top := Some (i * itemHeight v)\<rparr>) hp,
                    itemsInContainer := tbl_set i \<lparr>status = Active, node = r\<rparr> (itemsInContainer v)\<rparr>)
      | (_, hp) \<Rightarrow> Inl TypeError)"

text \<open>
  The \<open>for\<close> loop of \<open>_renderChunk\<close> over the indices \<open>from, ..., finalItem - 1\<close>.
  \<open>fragment.appendChild(row)\<close> first detaches \<open>row\<close> from the parent it has (the container
  or the fragment itself; other parents are outside the model), then puts it last in the fragment.
\<close>

fun render_rows :: "nat list \<Rightarrow> nat list \<Rightarrow> vlist \<Rightarrow> error + (nat list \<times> vlist)" where
  "render_rows [] fragment v = Inr (fragment, v)"
| "render_rows (i # rest) fragment v =
     (case createRow i v of
        Inl e \<Rightarrow> Inl e
      | Inr (r, v') \<Rightarrow>
          render_rows rest (removeAll r fragment @ [r])
            (v'\<lparr>container := removeAll r (container v')\<rparr>))"

text \<open>Every entry of the table is set to status 0 and its node is hidden.\<close>

definition mark_stale :: "vlist \<Rightarrow> vlist" where
  "mark_stale v =
     v\<lparr>itemsInContainer := map (\<lambda>(k, e). (k, e\<lparr>status := Stale\<rparr>)) (itemsInContainer v),
       heap := fold (\<lambda>(k, e). modify (node e) (\<lambda>n. n\<lparr>display := ''none''\<rparr>))
                 (itemsInContainer v) (heap v)\<rparr>"

definition finalItem :: "nat \<Rightarrow> vlist \<Rightarrow> nat" where
  "finalItem from v =
     (if from + cachedItemsLen v > totalRows v then totalRows v else from + cachedItemsLen v)"

definition renderChunk :: "nat \<Rightarrow> vlist \<Rightarrow> error + vlist" where
  "renderChunk from v =
     (case render_rows [from..<finalItem from v] [] (mark_stale v) of
        Inl e \<Rightarrow> Inl e
      | Inr (fragment, v') \<Rightarrow> Inr (v'\<lparr>container := container v' @ fragment\<rparr>))"

section \<open>Reclamation (src/vlist.js, the \<open>setInterval\<close> callback)\<close>

text \<open>
  \<open>container.removeChild(n)\<close> throws a NotFoundError when \<open>n\<close> is not a child of the
  container. \<open>now\<close> is the value of \<open>Date.now()\<close> at the tick.
\<close>

fun rmNodes :: "nat list \<Rightarrow> vlist \<Rightarrow> error + vlist" where
  "rmNodes [] v = Inr v"
| "rmNodes (index # rest) v =
     (case map_of (itemsInContainer v) index of
        None \<Rightarrow> Inl TypeError
      | Some badItem \<Rightarrow>
          if node badItem \<in> set (container v) then
            rmNodes rest
              (v\<lparr>container := removeAll (node badItem) (container v),
                 heap := modify (node badItem) (\<lambda>n. n\<lparr>display := []\<rparr>) (heap v),
                 itemsInContainer := tbl_delete index (itemsInContainer v)\<rparr>)
          else Inl NotFoundError)"

definition badItemIndicies :: "vlist \<Rightarrow> nat list" where
  "badItemIndicies v =
     filter (\<lambda>index. case map_of (itemsInContainer v) index of
                        Some e \<Rightarrow> status e = Stale | None \<Rightarrow> False)
            (object_keys (itemsInContainer v))"

definition rmNodeInterval :: "int \<Rightarrow> vlist \<Rightarrow> error + vlist" where
  "rmNodeInterval now v =
     (if now - lastScrolled v > 100 then rmNodes (badItemIndicies v) v else Inr v)"

section \<open>Scroll handler (src/vlist.js, \<open>onScroll\<close>)\<close>

text \<open>
  \<open>scrollTop\<close> is an integer, possibly negative (some browsers report negative offsets while
  the content bounces). \<open>parseInt(scrollTop / itemHeight)\<close> converts the quotient to a string
  and reads the digits at its start, up to the first character that is no digit:

  \<^item> a quotient \<open>q\<close> with \<open>10\<^sup>-\<^sup>6 \<le> |q| < 10\<^sup>2\<^sup>1\<close>, and \<open>0\<close>, is printed in decimal notation, and the
    result is \<open>q\<close> without its fraction (rounded towards zero);
  \<^item> any other quotient is printed in exponent notation, as in \<open>5e-7\<close>, \<open>3.3333333333333335e-7\<close>
    or \<open>1e+21\<close>, and the result is its first digit alone, with the sign of \<open>q\<close>:
    \<open>parseInt(5 / 10000000)\<close> is \<open>5\<close>.

  \<open>first_digit_small m b\<close> is the first digit of \<open>m / b\<close> for \<open>0 < m < b\<close>, and
  \<open>first_digit_big n\<close> the first digit of \<open>n\<close>. The rules are applied to the exact quotient of
  the two integers. The code applies them to the double nearest to it, which has the same
  integer part when \<open>|scrollTop|\<close> and \<open>itemHeight\<close> are below \<open>2\<^sup>5\<^sup>3\<close>; \<open>decimal_quotient\<close> holds
  of the offsets and row heights in that range whose quotient is printed in decimal notation
  or is not positive. A row height of \<open>0\<close>, where the quotient is \<open>Infinity\<close> or \<open>NaN\<close>, is not
  modelled.
  \<open>!lastRepaintY\<close> holds when \<open>lastRepaintY\<close> is \<open>undefined\<close> and also when it is \<open>0\<close>.
  \<open>now\<close> is the value of \<open>Date.now()\<close> when the handler runs; \<open>e.preventDefault\<close> is left out.
\<close>

function first_digit_small :: "int \<Rightarrow> int \<Rightarrow> int" where
  "first_digit_small m b =
     (if m \<le> 0 \<or> b \<le> m then m div b else first_digit_small (10 * m) b)"
  by pat_completeness auto
termination
  by (relation "measure (\<lambda>(m, b). nat (b - m))") auto

declare first_digit_small.simps [simp del]

function first_digit_big :: "int \<Rightarrow> int" where
  "first_digit_big n = (if n < 10 then n else first_digit_big (n div 10))"
  by pat_completeness auto
termination
  by (relation "measure nat") auto

declare first_digit_big.simps [simp del]

definition parseInt_nonneg :: "int \<Rightarrow> int \<Rightarrow> int" where
  "parseInt_nonneg m b =
     (if m = 0 then 0
      else if 1000000000000000000000 \<le> m div b then first_digit_big (m div b)
      else if b \<le> 1000000 * m then m div b
      else first_digit_small m b)"

definition parseInt_quot :: "int \<Rightarrow> nat \<Rightarrow> int" where
  "parseInt_quot a b =
     (if a < 0 then - parseInt_nonneg (- a) (int b) else parseInt_nonneg a (int b))"

definition decimal_quotient :: "int \<Rightarrow> nat \<Rightarrow> bool" where
  "decimal_quotient scrollTop b \<longleftrightarrow>
     0 < b \<and> int b < 9007199254740992 \<and> \<bar>scrollTop\<bar> < 9007199254740992 \<and>
     (scrollTop \<le> 0 \<or> int b \<le> 1000000 * scrollTop)"

definition needs_repaint :: "int \<Rightarrow> vlist \<Rightarrow> bool" where
  "needs_repaint scrollTop v =
     (case lastRepaintY v of
        None \<Rightarrow> True
      | Some y \<Rightarrow> y = 0 \<or> \<bar>scrollTop - y\<bar> > int (maxBuffer v))"

definition first_row :: "int \<Rightarrow> vlist \<Rightarrow> nat" where
  "first_row scrollTop v =
     (let first = parseInt_quot scrollTop (itemHeight v) - int (screenItemsLen v)
      in if first < 0 then 0 else nat first)"

definition onScroll :: "int \<Rightarrow> int \<Rightarrow> vlist \<Rightarrow> error + vlist" where
  "onScroll scrollTop now v =
     (if needs_repaint scrollTop v then
        (case renderChunk (first_row scrollTop v) v of
           Inl e \<Rightarrow> Inl e
         | Inr v' \<Rightarrow> Inr (v'\<lparr>lastRepaintY := Some scrollTop, lastScrolled := now\<rparr>))
      else Inr (v\<lparr>lastScrolled := now\<rparr>))"

section \<open>Construction (src/vlist.js, \<open>VirtualList\<close>)\<close>

text \<open>
  The configuration: \<open>h\<close>, \<open>itemHeight\<close>, and the optional \<open>items\<close>, \<open>totalRows\<close> and
  \<open>itemBuffer\<close> (an absent option is \<open>None\<close>; \<open>0\<close> is falsy and selects the default as an
  absent option does). The width and a caller-supplied \<open>generatorFn\<close> are not modelled: the
  default factory is used. \<open>doc\<close> is the document heap before the call; it holds the
  pre-built elements of \<open>items\<close>. Of the scroller's style only height, position and top are
  kept. The container element is represented by its child list alone. \<open>init_vlist\<close> is the
  object just before the constructor calls \<open>_renderChunk(this.container, 0)\<close>, with the closure
  variables at the values they get after that call.
\<close>

record config =
  config_h :: nat
  config_itemHeight :: nat
  config_items :: "jsval list option"
  config_totalRows :: "nat option"
  config_itemBuffer :: "nat option"

definition createScroller :: "nat \<Rightarrow> dom_node" where
  "createScroller hgt =
     new_div\<lparr>height := Some hgt, position := ''absolute'', top := Some 0,
             classes := [''vScroller'']\<rparr>"

text \<open>
  \<open>Math.ceil(a / b)\<close> on natural numbers, for \<open>b > 0\<close>. For \<open>b = 0\<close> the code gets \<open>Infinity\<close> or
  \<open>NaN\<close>; that case is not modelled.
\<close>

definition math_ceil_quot :: "nat \<Rightarrow> nat \<Rightarrow> nat" where
  "math_ceil_quot a b = (a + b - 1) div b"

definition init_vlist :: "config \<Rightarrow> dom_node list \<Rightarrow> vlist" where
  "init_vlist config doc =
     (let its = (case config_items config of Some xs \<Rightarrow> xs | None \<Rightarrow> []);
          total = (case config_totalRows config of
                     Some n \<Rightarrow> if n \<noteq> 0 then n else length its
                   | None \<Rightarrow> length its);
          screen = math_ceil_quot (config_h config) (config_itemHeight config);
          cached = (case config_itemBuffer config of
                      Some b \<Rightarrow> if b \<noteq> 0 then b else screen * 3
                    | None \<Rightarrow> screen * 3)
      in \<lparr>itemHeight = config_itemHeight config, items = its, itemsInContainer = [],
          totalRows = total, cachedItemsLen = cached, container = [length doc],
          screenItemsLen = screen, maxBuffer = screen * config_itemHeight config,
          lastRepaintY = None, lastScrolled = 0,
          heap = doc @ [createScroller (config_itemHeight config * total)]\<rparr>)"

definition VirtualList :: "config \<Rightarrow> dom_node list \<Rightarrow> error + vlist" where
  "VirtualList config doc = renderChunk 0 (init_vlist config doc)"

section \<open>Runs\<close>

text \<open>
  The two signal sources: a scroll event with its \<open>scrollTop\<close> and the time it is handled,
  and a tick of the 300 ms interval timer with its time. A run handles the events in order and
  stops at the first exception.
\<close>

datatype event = Scroll int int | Tick int

fun step :: "event \<Rightarrow> vlist \<Rightarrow> error + vlist" where
  "step (Scroll scrollTop now) v = onScroll scrollTop now v"
| "step (Tick now) v = rmNodeInterval now v"

fun run :: "event list \<Rightarrow> vlist \<Rightarrow> error + vlist" where
  "run [] v = Inr v"
| "run (e # es) v = (case step e v of Inl err \<Rightarrow> Inl err | Inr v' \<Rightarrow> run es v')"

section \<open>The second variant (src/unnamed/part\_000)\<close>

text \<open>
  The second source file differs from src/vlist.js in three places. Its \<open>createRow\<close> does not
  write the table: \<open>_renderChunk\<close> does so after each call. Its scroll handler, when it
  re-plans, also calls the throttled reclamation function, which runs its body once, 300 ms
  later; in the model that body runs at a \<open>Tick\<close>, at any time. And the body of the
  reclamation function keeps the Active entries in a new table, removes the last child of the
  container until one child is left, and appends the nodes of the kept entries in key order.
  Neither \<open>removeChild(lastChild)\<close> nor \<open>appendChild\<close> can throw here.
\<close>

definition createRow2 :: "nat \<Rightarrow> vlist \<Rightarrow> error + (nat \<times> vlist)" where
  "createRow2 i v =
     (case generatorFn2 (items v) i (itemHeight v) (heap v) of
        (JNode r, hp) \<Rightarrow>
          Inr (r, v\<lparr>heap := modify r (\<lambda>n. (classList_add ''vrow'' n)
                                   \<lparr>display := [], position := ''absolute'',
                                    top := Some (i * itemHeight v)\<rparr>) hp\<rparr>)
      | (_, hp) \<Rightarrow> Inl TypeError)"

fun render_rows2 :: "nat list \<Rightarrow> nat list \<Rightarrow> vlist \<Rightarrow> error + (nat list \<times> vlist)" where
  "render_rows2 [] fragment v = Inr (fragment, v)"
| "render_rows2 (i # rest) fragment v =
     (case createRow2 i v of
        Inl e \<Rightarrow> Inl e
      | Inr (row, v') \<Rightarrow>
          render_rows2 rest (removeAll row fragment @ [row])
            (v'\<lparr>itemsInContainer :=
                  tbl_set i \<lparr>status = Active, node = row\<rparr> (itemsInContainer v'),
                container := removeAll row (container v')\<rparr>))"

definition renderChunk2 :: "nat \<Rightarrow> vlist \<Rightarrow> error + vlist" where
  "renderChunk2 from v =
     (case render_rows2 [from..<finalItem from v] [] (mark_stale v) of
        Inl e \<Rightarrow> Inl e
      | Inr (fragment, v') \<Rightarrow> Inr (v'\<lparr>container := container v' @ fragment\<rparr>))"

function remove_last_children :: "nat list \<Rightarrow> nat list" where
  "remove_last_children c = (if length c > 1 then remove_last_children (butlast c) else c)"
  by pat_completeness auto
termination
  by (relation "measure length") auto

declare remove_last_children.simps [simp del]

definition throttledRmNode :: "int \<Rightarrow> vlist \<Rightarrow> error + vlist" where
  "throttledRmNode now v =
     (if now - lastScrolled v > 100 then
        (let kept = filter (\<lambda>p. status (snd p) = Active) (itemsInContainer v)
         in Inr (v\<lparr>itemsInContainer := kept,
                   container := fold (\<lambda>p c. removeAll (node (snd p)) c @ [node (snd p)]) kept
                                  (remove_last_children (container v))\<rparr>))
      else Inr v)"

definition onScroll2 :: "int \<Rightarrow> int \<Rightarrow> vlist \<Rightarrow> error + vlist" where
  "onScroll2 scrollTop now v =
     (if needs_repaint scrollTop v then
        (case renderChunk2 (first_row scrollTop v) v of
           Inl e \<Rightarrow> Inl e
         | Inr v' \<Rightarrow> Inr (v'\<lparr>lastRepaintY := Some scrollTop, lastScrolled := now\<rparr>))
      else Inr (v\<lparr>lastScrolled := now\<rparr>))"

definition VirtualList2 :: "config \<Rightarrow> dom_node list \<Rightarrow> error + vlist" where
  "VirtualList2 config doc = renderChunk2 0 (init_vlist config doc)"

fun step2 :: "event \<Rightarrow> vlist \<Rightarrow> error + vlist" where
  "step2 (Scroll scrollTop now) v = onScroll2 scrollTop now v"
| "step2 (Tick now) v = throttledRmNode now v"

fun run2 :: "event list \<Rightarrow> vlist \<Rightarrow> error + vlist" where
  "run2 [] v = Inr v"
| "run2 (e # es) v = (case step2 e v of Inl err \<Rightarrow> Inl err | Inr v' \<Rightarrow> run2 es v')"

section \<open>Well-formed states\<close>

text \<open>The nodes of the table's entries, in key order.\<close>

definition nodes_of :: "table \<Rightarrow> nat list" where
  "nodes_of t = map (\<lambda>p. node (snd p)) t"

text \<open>
  An item the default factory of src/vlist.js turns into a row: a string, a falsy value, or a
  pre-built element that exists in the document (its address is below the heap size \<open>n\<close>).
  For any other item (a number other than 0, \<open>true\<close>, an object that is not an element)
  \<open>createRow\<close> throws. \<open>items_ok\<close> holds when every item can be rendered and no element
  occurs at two indices of \<open>items\<close>.
\<close>

fun renderable :: "nat \<Rightarrow> jsval \<Rightarrow> bool" where
  "renderable n (JNode r) = (r < n)"
| "renderable n (JStr s) = True"
| "renderable n x = (\<not> truthy x)"

fun is_node :: "jsval \<Rightarrow> bool" where
  "is_node (JNode r) = True"
| "is_node x = False"

definition items_ok :: "jsval list \<Rightarrow> nat \<Rightarrow> bool" where
  "items_ok its n \<longleftrightarrow> (\<forall>x \<in> set its. renderable n x) \<and> distinct (filter is_node its)"

text \<open>
  The invariant of the states between two events. An entry's node is the pre-built element
  of its row when the row has one, and otherwise an element that is no item. Keys occur once,
  no two entries share a node, and every entry's node is allocated and is a child of the
  container (or, while \<open>_renderChunk\<close> runs, of its document fragment).
\<close>

definition from_item :: "jsval list \<Rightarrow> nat \<times> entry \<Rightarrow> bool" where
  "from_item its p \<longleftrightarrow>
     (is_node (item_at its (fst p)) \<longrightarrow> item_at its (fst p) = JNode (node (snd p))) \<and>
     (\<not> is_node (item_at its (fst p)) \<longrightarrow> JNode (node (snd p)) \<notin> set its)"

definition wf :: "nat list \<Rightarrow> vlist \<Rightarrow> bool" where
  "wf fragment v \<longleftrightarrow>
     items_ok (items v) (length (heap v)) \<and>
     distinct (map fst (itemsInContainer v)) \<and>
     distinct (nodes_of (itemsInContainer v)) \<and>
     (\<forall>p \<in> set (itemsInContainer v).
        node (snd p) < length (heap v) \<and>
        node (snd p) \<in> set (container v) \<union> set fragment \<and>
        from_item (items v) p)"

text \<open>
  The indices with status Active, the nodes of the Stale entries, and the fields that no
  operation changes after construction.
\<close>

definition active_indices :: "vlist \<Rightarrow> nat list" where
  "active_indices v = map fst (filter (\<lambda>p. status (snd p) = Active) (itemsInContainer v))"

definition stale_nodes :: "vlist \<Rightarrow> nat list" where
  "stale_nodes v =
     map (\<lambda>p. node (snd p)) (filter (\<lambda>p. status (snd p) = Stale) (itemsInContainer v))"

definition same_config :: "vlist \<Rightarrow> vlist \<Rightarrow> bool" where
  "same_config v v' \<longleftrightarrow>
     items v' = items v \<and> itemHeight v' = itemHeight v \<and> totalRows v' = totalRows v \<and>
     cachedItemsLen v' = cachedItemsLen v \<and> screenItemsLen v' = screenItemsLen v \<and>
     maxBuffer v' = maxBuffer v"

text \<open>A configuration whose items can be rendered over the document \<open>doc\<close>.\<close>

definition config_ok :: "config \<Rightarrow> dom_node list \<Rightarrow> bool" where
  "config_ok c doc \<longleftrightarrow>
     items_ok (case config_items c of Some xs \<Rightarrow> xs | None \<Rightarrow> []) (length doc)"

text \<open>
  For the second variant: items on which its factory agrees with the one of src/vlist.js
  (truthy or \<open>undefined\<close>), and the scroller being the first child of the container, an
  element of the document that is neither a row's node nor an item.
\<close>

definition strict_items :: "jsval list \<Rightarrow> bool" where
  "strict_items its \<longleftrightarrow> (\<forall>x \<in> set its. truthy x \<or> is_undefined x)"

definition scroller_first :: "nat list \<Rightarrow> vlist \<Rightarrow> bool" where
  "scroller_first fragment v \<longleftrightarrow>
     container v \<noteq> [] \<and> hd (container v) < length (heap v) \<and>
     hd (container v) \<notin> set fragment \<and>
     hd (container v) \<notin> set (nodes_of (itemsInContainer v)) \<and>
     JNode (hd (container v)) \<notin> set (items v)"

section \<open>The window as the specification words it\<close>

text \<open>
  The planner's formulas, written with real division, floor and ceiling:
  \<open>visibleCount = ceil(viewportHeight / rowHeight)\<close>,
  \<open>first = max(0, floor(s / rowHeight) - visibleCount)\<close> and
  \<open>last = min(totalRows, first + bufferSize)\<close>.
\<close>

definition spec_visibleCount :: "nat \<Rightarrow> nat \<Rightarrow> int" where
  "spec_visibleCount viewportHeight rowHeight = \<lceil>real viewportHeight / real rowHeight\<rceil>"

definition spec_first :: "int \<Rightarrow> nat \<Rightarrow> int \<Rightarrow> int" where
  "spec_first s rowHeight visibleCount = max 0 (\<lfloor>real_of_int s / real rowHeight\<rfloor> - visibleCount)"

definition spec_last :: "int \<Rightarrow> int \<Rightarrow> int \<Rightarrow> int" where
  "spec_last rows first bufferSize = min rows (first + bufferSize)"

section \<open>Example configurations\<close>

text \<open>
  A document holding one pre-built element, and a list over six items of mixed kinds with ten
  rows in all: viewport height 2 and row height 1 give two visible rows, a buffer of six rows
  and a repaint threshold of 2.
\<close>

definition example_doc :: "dom_node list" where
  "example_doc = [new_div\<lparr>texts := [''pre'', ''built'']\<rparr>]"

definition example_items :: "jsval list" where
  "example_items = [JStr ''row'', JNode 0, JStr [], JNum 0, JNull, JBool False]"

definition example_config :: config where
  "example_config =
     \<lparr>config_h = 2, config_itemHeight = 1, config_items = Some example_items,
      config_totalRows = Some 10, config_itemBuffer = None\<rparr>"


text \<open>
  States of the example: after construction, after one scroll event at offset 8 (the largest
  offset the ten rows allow), after one at offset 2, and after scrolling to 8 and back to 0.
\<close>

definition example_v0 :: vlist where
  "example_v0 = projr (VirtualList example_config example_doc)"

definition example_at_8 :: vlist where
  "example_at_8 = projr (run [Scroll 8 1000] example_v0)"

definition example_at_2 :: vlist where
  "example_at_2 = projr (run [Scroll 2 1000] example_v0)"

definition example_back :: vlist where
  "example_back = projr (run [Scroll 8 1000, Scroll 0 1010] example_v0)"

text \<open>The state after a further scroll event at offset 1, handled at time 1020.\<close>

definition example_back_1 :: vlist where
  "example_back_1 = projr (onScroll 1 1020 example_back)"

text \<open>
  A list over a string and the pre-built element only, built by either variant, then scrolled
  to offset 2 at time 1000 and left alone until a tick at time 1200.
\<close>

definition strict_config :: config where
  "strict_config =
     \<lparr>config_h = 2, config_itemHeight = 1, config_items = Some [JStr ''row'', JNode 0],
      config_totalRows = Some 10, config_itemBuffer = None\<rparr>"

definition strict_v0 :: vlist where
  "strict_v0 = projr (VirtualList strict_config example_doc)"

definition strict_swept :: vlist where
  "strict_swept = projr (run [Scroll 2 1000, Tick 1200] strict_v0)"

definition strict2_v0 :: vlist where
  "strict2_v0 = projr (VirtualList2 strict_config example_doc)"

definition strict2_swept :: vlist where
  "strict2_swept = projr (run2 [Scroll 2 1000, Tick 1200] strict2_v0)"

text \<open>
  A list of thirty placeholder rows, scrolled to offset 10 and, ten milliseconds later, to
  offset 20.
\<close>

definition long_config :: config where
  "long_config =
     \<lparr>config_h = 2, config_itemHeight = 1, config_items = None,
      config_totalRows = Some 30, config_itemBuffer = None\<rparr>"

definition long_v0 :: vlist where
  "long_v0 = projr (VirtualList long_config [])"

definition long_far :: vlist where
  "long_far = projr (run [Scroll 10 1000, Scroll 20 1010] long_v0)"

text \<open>
  A list of ten placeholder rows, each \<open>10\<^sup>7\<close> pixels high, in a viewport of 600 pixels: one
  visible row and a buffer of three. Its first scroll event is at offset 5.
\<close>

definition tall_config :: config where
  "tall_config =
     \<lparr>config_h = 600, config_itemHeight = 10000000, config_items = None,
      config_totalRows = Some 10, config_itemBuffer = None\<rparr>"

definition tall_v0 :: vlist where
  "tall_v0 = projr (VirtualList tall_config [])"

definition tall_at_5 :: vlist where
  "tall_at_5 = projr (onScroll 5 1000 tall_v0)"

section \<open>Invariants of the model\<close>

lemma set_tbl_set: "set (tbl_set k e t) = insert (k, e) {p \<in> set t. fst p \<noteq> k}"
  by (auto simp: tbl_set_def)

lemma distinct_keys_tbl_set:
  "distinct (map fst t) \<Longrightarrow> distinct (map fst (tbl_set k e t))"
  by (auto simp: tbl_set_def distinct_map_filter)

lemma sorted_keys_tbl_set:
  assumes "sorted (map fst t)"
  shows "sorted (map fst (tbl_set k e t))"
proof -
  have "sorted (map fst (filter (\<lambda>p. fst p < k) t))" "sorted (map fst (filter (\<lambda>p. k < fst p) t))"
    using assms by (simp_all add: sorted_filter)
  then show ?thesis
    by (auto simp: tbl_set_def sorted_append)
qed

lemma distinct_nodes_tbl_set:
  assumes "distinct (nodes_of t)" and "\<forall>p \<in> set t. fst p \<noteq> k \<longrightarrow> node (snd p) \<noteq> node e"
  shows "distinct (nodes_of (tbl_set k e t))"
proof -
  have inj: "inj_on (\<lambda>p. node (snd p)) (set t)" and d: "distinct t"
    using assms(1) by (simp_all add: nodes_of_def distinct_map)
  have "distinct (map (\<lambda>p. node (snd p)) (filter (\<lambda>p. fst p < k) t))"
       "distinct (map (\<lambda>p. node (snd p)) (filter (\<lambda>p. k < fst p) t))"
    using assms(1) by (simp_all add: nodes_of_def distinct_map_filter)
  moreover have "node (snd p) \<noteq> node (snd q)"
    if "p \<in> set t" "fst p < k" "q \<in> set t" "k < fst q" for p q
  proof
    assume "node (snd p) = node (snd q)"
    with inj that have "p = q" by (auto dest: inj_onD)
    with that show False by simp
  qed
  ultimately show ?thesis
    using assms(2) by (auto simp: nodes_of_def tbl_set_def)
qed

lemma length_modify [simp]: "length (modify r f hp) = length hp"
  by (simp add: modify_def)

lemma item_at_mem: "item_at its i = JNode r \<Longrightarrow> JNode r \<in> set its"
  unfolding item_at_def by (cases "i < length its") (auto dest: nth_mem)

lemma item_at_node_unique:
  "distinct (filter is_node its) \<Longrightarrow> item_at its i = JNode r \<Longrightarrow> item_at its j = JNode r \<Longrightarrow> i = j"
proof (induction its arbitrary: i j)
  case Nil
  then show ?case by (simp add: item_at_def)
next
  case (Cons x xs)
  have mem: "item_at xs m = JNode r \<Longrightarrow> JNode r \<in> set xs" for m
    by (rule item_at_mem)
  show ?case
  proof (cases i)
    case 0
    then show ?thesis
      using Cons.prems mem [of "j - 1"]
      by (cases j) (auto simp: item_at_def split: if_splits)
  next
    case (Suc i')
    then show ?thesis
      using Cons.prems Cons.IH [of i' "j - 1"] mem [of i']
      by (cases j) (auto simp: item_at_def split: if_splits)
  qed
qed

lemma item_at_renderable:
  "\<forall>x \<in> set its. renderable n x \<Longrightarrow> renderable n (item_at its i)"
  by (auto simp: item_at_def)

lemma createRow_Inr:
  assumes "createRow i v = Inr (r, v')"
  shows "v' = v\<lparr>heap := heap v', itemsInContainer := tbl_set i \<lparr>status = Active, node = r\<rparr> (itemsInContainer v)\<rparr>"
    and "(item_at (items v) i = JNode r \<and> length (heap v') = length (heap v)) \<or>
         (r = length (heap v) \<and> length (heap v') = Suc (length (heap v)) \<and> \<not> is_node (item_at (items v) i))"
  using assms
  by (cases "item_at (items v) i"; auto simp: createRow_def generatorFn_def Let_def split: if_splits)+

lemma createRow_total:
  assumes "renderable n (item_at (items v) i)"
  shows "\<exists>r v'. createRow i v = Inr (r, v')"
  using assms
  by (cases "item_at (items v) i") (auto simp: createRow_def generatorFn_def Let_def)

lemma createRow_fields:
  assumes "createRow i v = Inr (r, v')"
  shows "itemsInContainer v' = tbl_set i \<lparr>status = Active, node = r\<rparr> (itemsInContainer v)"
    and "container v' = container v" and "items v' = items v"
    and "itemHeight v' = itemHeight v" and "totalRows v' = totalRows v"
    and "cachedItemsLen v' = cachedItemsLen v" and "screenItemsLen v' = screenItemsLen v"
    and "maxBuffer v' = maxBuffer v" and "lastRepaintY v' = lastRepaintY v"
    and "lastScrolled v' = lastScrolled v"
proof -
  have "v' = v\<lparr>heap := heap v', itemsInContainer :=
                  tbl_set i \<lparr>status = Active, node = r\<rparr> (itemsInContainer v)\<rparr>"
    using assms by (rule createRow_Inr(1))
  then obtain hp t where e: "v' = v\<lparr>heap := hp, itemsInContainer := t\<rparr>"
    and t: "t = tbl_set i \<lparr>status = Active, node = r\<rparr> (itemsInContainer v)"
    by blast
  show "itemsInContainer v' = tbl_set i \<lparr>status = Active, node = r\<rparr> (itemsInContainer v)"
    and "container v' = container v" and "items v' = items v"
    and "itemHeight v' = itemHeight v" and "totalRows v' = totalRows v"
    and "cachedItemsLen v' = cachedItemsLen v" and "screenItemsLen v' = screenItemsLen v"
    and "maxBuffer v' = maxBuffer v" and "lastRepaintY v' = lastRepaintY v"
    and "lastScrolled v' = lastScrolled v"
    by (simp_all add: e t)
qed

lemma renderable_mono: "n \<le> m \<Longrightarrow> renderable n x \<Longrightarrow> renderable m x"
  by (cases x) auto

lemma items_ok_mono: "n \<le> m \<Longrightarrow> items_ok its n \<Longrightarrow> items_ok its m"
  by (auto simp: items_ok_def intro: renderable_mono)

lemma items_ok_node_below: "items_ok its n \<Longrightarrow> JNode r \<in> set its \<Longrightarrow> r < n"
  by (auto simp: items_ok_def)

lemma createRow_wf:
  assumes wf: "wf fragment v" and cr: "createRow i v = Inr (r, v')"
  shows "wf (removeAll r fragment @ [r]) (v'\<lparr>container := removeAll r (container v')\<rparr>)"
proof -
  note f = createRow_fields [OF cr]
  from wf have ok: "items_ok (items v) (length (heap v))"
    and dk: "distinct (map fst (itemsInContainer v))"
    and dn: "distinct (nodes_of (itemsInContainer v))"
    and en: "\<And>p. p \<in> set (itemsInContainer v) \<Longrightarrow>
        node (snd p) < length (heap v) \<and>
        node (snd p) \<in> set (container v) \<union> set fragment \<and>
        from_item (items v) p"
    by (auto simp: wf_def)
  have mono: "length (heap v) \<le> length (heap v') \<and> r < length (heap v') \<and>
      from_item (items v) (i, \<lparr>status = Active, node = r\<rparr>) \<and>
      (\<forall>p \<in> set (itemsInContainer v). fst p \<noteq> i \<longrightarrow> node (snd p) \<noteq> r)"
    using createRow_Inr(2) [OF cr]
  proof (elim disjE conjE)
    assume prebuilt: "item_at (items v) i = JNode r" "length (heap v') = length (heap v)"
    have mem: "JNode r \<in> set (items v)" using prebuilt(1) by (rule item_at_mem)
    have "node (snd p) \<noteq> r" if "p \<in> set (itemsInContainer v)" "fst p \<noteq> i" for p
    proof
      assume eq: "node (snd p) = r"
      with en [OF that(1)] mem have "item_at (items v) (fst p) = JNode r"
        by (auto simp: from_item_def)
      with prebuilt(1) ok have "fst p = i"
        by (auto simp: items_ok_def dest: item_at_node_unique)
      with that show False by simp
    qed
    then show ?thesis
      using items_ok_node_below [OF ok mem] prebuilt by (simp add: from_item_def)
  next
    assume fresh: "r = length (heap v)" "length (heap v') = Suc (length (heap v))"
      "\<not> is_node (item_at (items v) i)"
    have "node (snd p) \<noteq> r" if "p \<in> set (itemsInContainer v)" for p
      using en [OF that] fresh by auto
    then show ?thesis
      using items_ok_node_below [OF ok, of r] fresh
      by (cases "item_at (items v) i") (auto simp: from_item_def)
  qed
  then have len: "length (heap v) \<le> length (heap v')"
    and rlt: "r < length (heap v')"
    and orig: "from_item (items v) (i, \<lparr>status = Active, node = r\<rparr>)"
    and other: "\<And>p. p \<in> set (itemsInContainer v) \<Longrightarrow> fst p \<noteq> i \<Longrightarrow> node (snd p) \<noteq> r"
    by blast+
  have "items_ok (items v) (length (heap v'))"
    using ok len by (rule items_ok_mono [rotated])
  moreover have "distinct (map fst (tbl_set i \<lparr>status = Active, node = r\<rparr> (itemsInContainer v)))"
    using dk by (rule distinct_keys_tbl_set)
  moreover have "distinct (nodes_of (tbl_set i \<lparr>status = Active, node = r\<rparr> (itemsInContainer v)))"
    using dn other by (intro distinct_nodes_tbl_set) auto
  moreover have "node (snd p) < length (heap v') \<and>
        node (snd p) \<in> set (removeAll r (container v)) \<union> set (removeAll r fragment @ [r]) \<and>
        from_item (items v) p"
    if "p \<in> set (tbl_set i \<lparr>status = Active, node = r\<rparr> (itemsInContainer v))" for p
  proof (cases "p = (i, \<lparr>status = Active, node = r\<rparr>)")
    case True
    then show ?thesis using rlt orig by simp
  next
    case False
    with that have "p \<in> set (itemsInContainer v)" by (simp add: set_tbl_set)
    from en [OF this] len show ?thesis by auto
  qed
  ultimately show ?thesis
    unfolding wf_def by (simp add: f)
qed

lemma render_rows_wf:
  "wf fragment v \<Longrightarrow> \<exists>fragment' v'. render_rows is fragment v = Inr (fragment', v') \<and> wf fragment' v'"
proof (induction "is" arbitrary: fragment v)
  case Nil
  then show ?case by simp
next
  case (Cons i rest)
  from Cons.prems have "renderable (length (heap v)) (item_at (items v) i)"
    by (auto simp: wf_def items_ok_def intro: item_at_renderable)
  then obtain r v1 where cr: "createRow i v = Inr (r, v1)"
    using createRow_total by blast
  from createRow_wf [OF Cons.prems cr] Cons.IH cr show ?case
    by fastforce
qed

lemma length_fold_modify [simp]:
  "length (fold (\<lambda>(k, e). modify (g e) f) t hp) = length hp"
  by (induction t arbitrary: hp) (auto simp: case_prod_beta)

lemma from_item_status [simp]: "from_item its (k, e\<lparr>status := s\<rparr>) = from_item its (k, e)"
  by (simp add: from_item_def)

lemma mark_stale_wf: "wf fragment v \<Longrightarrow> wf fragment (mark_stale v)"
  by (fastforce simp: wf_def mark_stale_def nodes_of_def comp_def case_prod_beta)

lemma renderChunk_wf:
  assumes "wf [] v"
  shows "\<exists>v'. renderChunk from v = Inr v' \<and> wf [] v'"
proof -
  from render_rows_wf [OF mark_stale_wf [OF assms]]
  obtain fragment v1 where
    rr: "render_rows [from..<finalItem from v] [] (mark_stale v) = Inr (fragment, v1)"
    and w: "wf fragment v1"
    by blast
  from w have "wf [] (v1\<lparr>container := container v1 @ fragment\<rparr>)"
    by (auto simp: wf_def)
  with rr show ?thesis
    by (simp add: renderChunk_def)
qed

lemma same_config_refl [simp]: "same_config v v"
  by (simp add: same_config_def)

lemma same_config_trans: "same_config a b \<Longrightarrow> same_config b c \<Longrightarrow> same_config a c"
  by (simp add: same_config_def)

lemma render_rows_ConsE:
  assumes "render_rows (i # rest) fragment v = Inr res"
  obtains r v1 where "createRow i v = Inr (r, v1)"
    and "render_rows rest (removeAll r fragment @ [r])
           (v1\<lparr>container := removeAll r (container v1)\<rparr>) = Inr res"
  using assms by (auto split: sum.splits)

lemma render_rows_frame:
  "render_rows is fragment v = Inr (fragment', v') \<Longrightarrow>
     same_config v v' \<and> lastRepaintY v' = lastRepaintY v \<and> lastScrolled v' = lastScrolled v \<and>
     length (heap v) \<le> length (heap v') \<and>
     length (container v') + length fragment' \<le> length (container v) + length fragment + length is"
proof (induction "is" arbitrary: fragment v)
  case Nil
  then show ?case by simp
next
  case (Cons i rest)
  from Cons.prems obtain r v1 where cr: "createRow i v = Inr (r, v1)"
    and rest: "render_rows rest (removeAll r fragment @ [r])
                 (v1\<lparr>container := removeAll r (container v1)\<rparr>) = Inr (fragment', v')"
    by (rule render_rows_ConsE)
  note f = createRow_fields [OF cr]
  have h: "length (heap v) \<le> length (heap v1)"
    using createRow_Inr(2) [OF cr] by auto
  have l1: "length (removeAll r (container v)) \<le> length (container v)"
    and l2: "length (removeAll r fragment) \<le> length fragment"
    by simp_all
  from Cons.IH [OF rest] f
  have "length (container v') + length fragment' \<le>
          Suc (length (removeAll r (container v)) + length (removeAll r fragment) + length rest)"
    by simp
  with l1 l2 have "length (container v') + length fragment' \<le>
          length (container v) + length fragment + length (i # rest)"
    by (simp del: length_removeAll_less_eq)
  with Cons.IH [OF rest] f h show ?case
    by (simp add: same_config_def)
qed

lemma render_rows_outside:
  "render_rows is fragment v = Inr (fragment', v') \<Longrightarrow> fst p \<notin> set is \<Longrightarrow>
     p \<in> set (itemsInContainer v') \<longleftrightarrow> p \<in> set (itemsInContainer v)"
proof (induction "is" arbitrary: fragment v)
  case Nil
  then show ?case by simp
next
  case (Cons i rest)
  from Cons.prems(1) obtain r v1 where cr: "createRow i v = Inr (r, v1)"
    and rest: "render_rows rest (removeAll r fragment @ [r])
                 (v1\<lparr>container := removeAll r (container v1)\<rparr>) = Inr (fragment', v')"
    by (rule render_rows_ConsE)
  from Cons.IH [OF rest] Cons.prems(2) createRow_fields(1) [OF cr] show ?case
    by (auto simp: set_tbl_set)
qed

lemma render_rows_inside:
  "render_rows is fragment v = Inr (fragment', v') \<Longrightarrow> i \<in> set is \<Longrightarrow>
     \<exists>r. (i, \<lparr>status = Active, node = r\<rparr>) \<in> set (itemsInContainer v') \<and>
         (is_node (item_at (items v) i) \<or> length (heap v) \<le> r)"
proof (induction "is" arbitrary: fragment v)
  case Nil
  then show ?case by simp
next
  case (Cons j rest)
  from Cons.prems(1) obtain r v1 where cr: "createRow j v = Inr (r, v1)"
    and rest: "render_rows rest (removeAll r fragment @ [r])
                 (v1\<lparr>container := removeAll r (container v1)\<rparr>) = Inr (fragment', v')"
    by (rule render_rows_ConsE)
  let ?v1 = "v1\<lparr>container := removeAll r (container v1)\<rparr>"
  have h: "length (heap v) \<le> length (heap v1)" and it: "items v1 = items v"
    using createRow_Inr(2) [OF cr] createRow_fields(3) [OF cr] by auto
  show ?case
  proof (cases "i \<in> set rest")
    case True
    from Cons.IH [OF rest True] h it show ?thesis by auto
  next
    case False
    with Cons.prems(2) have ij: "i = j" by simp
    have "(j, \<lparr>status = Active, node = r\<rparr>) \<in> set (itemsInContainer ?v1)"
      using createRow_fields(1) [OF cr] by (simp add: set_tbl_set)
    then have "(j, \<lparr>status = Active, node = r\<rparr>) \<in> set (itemsInContainer v')"
      using render_rows_outside [OF rest, of "(j, \<lparr>status = Active, node = r\<rparr>)"] False ij
      by simp
    moreover have "is_node (item_at (items v) j) \<or> length (heap v) \<le> r"
      using createRow_Inr(2) [OF cr] by auto
    ultimately show ?thesis using ij by blast
  qed
qed

lemma renderChunk_Inr:
  assumes "renderChunk from v = Inr v'"
  obtains fragment v1 where
    "render_rows [from..<finalItem from v] [] (mark_stale v) = Inr (fragment, v1)"
    and "v' = v1\<lparr>container := container v1 @ fragment\<rparr>"
  using assms by (auto simp: renderChunk_def split: sum.splits)

lemma renderChunk_frame:
  assumes "renderChunk from v = Inr v'"
  shows "same_config v v'" and "lastRepaintY v' = lastRepaintY v"
    and "lastScrolled v' = lastScrolled v" and "length (heap v) \<le> length (heap v')"
    and "length (container v') \<le> length (container v) + (finalItem from v - from)"
proof -
  from assms obtain fragment v1 where
    rr: "render_rows [from..<finalItem from v] [] (mark_stale v) = Inr (fragment, v1)"
    and v': "v' = v1\<lparr>container := container v1 @ fragment\<rparr>"
    by (rule renderChunk_Inr)
  note fr = render_rows_frame [OF rr]
  show "same_config v v'" and "lastRepaintY v' = lastRepaintY v"
    and "lastScrolled v' = lastScrolled v" and "length (heap v) \<le> length (heap v')"
    and "length (container v') \<le> length (container v) + (finalItem from v - from)"
    using fr by (simp_all add: v' same_config_def mark_stale_def)
qed

lemma renderChunk_table:
  assumes "renderChunk from v = Inr v'"
  shows "\<And>i. from \<le> i \<Longrightarrow> i < finalItem from v \<Longrightarrow>
           \<exists>r. (i, \<lparr>status = Active, node = r\<rparr>) \<in> set (itemsInContainer v') \<and>
               (is_node (item_at (items v) i) \<or> length (heap v) \<le> r)"
    and "\<And>k e. \<not> (from \<le> k \<and> k < finalItem from v) \<Longrightarrow>
           (k, e) \<in> set (itemsInContainer v') \<longleftrightarrow>
           status e = Stale \<and> (\<exists>s. (k, e\<lparr>status := s\<rparr>) \<in> set (itemsInContainer v))"
proof -
  from assms obtain fragment v1 where
    rr: "render_rows [from..<finalItem from v] [] (mark_stale v) = Inr (fragment, v1)"
    and v': "v' = v1\<lparr>container := container v1 @ fragment\<rparr>"
    by (rule renderChunk_Inr)
  show "\<exists>r. (i, \<lparr>status = Active, node = r\<rparr>) \<in> set (itemsInContainer v') \<and>
               (is_node (item_at (items v) i) \<or> length (heap v) \<le> r)"
    if "from \<le> i" "i < finalItem from v" for i
    using render_rows_inside [OF rr, of i] that by (simp add: v' mark_stale_def)
  show "(k, e) \<in> set (itemsInContainer v') \<longleftrightarrow>
           status e = Stale \<and> (\<exists>s. (k, e\<lparr>status := s\<rparr>) \<in> set (itemsInContainer v))"
    if "\<not> (from \<le> k \<and> k < finalItem from v)" for k e
  proof -
    have "(k, e) \<in> set (itemsInContainer v') \<longleftrightarrow> (k, e) \<in> set (itemsInContainer (mark_stale v))"
      using render_rows_outside [OF rr, of "(k, e)"] that by (simp add: v')
    also have "\<dots> \<longleftrightarrow> status e = Stale \<and> (\<exists>s. (k, e\<lparr>status := s\<rparr>) \<in> set (itemsInContainer v))"
    proof
      assume "(k, e) \<in> set (itemsInContainer (mark_stale v))"
      then obtain e0 where "(k, e0) \<in> set (itemsInContainer v)" "e = e0\<lparr>status := Stale\<rparr>"
        by (auto simp: mark_stale_def)
      then have "status e = Stale" "(k, e\<lparr>status := status e0\<rparr>) \<in> set (itemsInContainer v)"
        by simp_all
      then show "status e = Stale \<and> (\<exists>s. (k, e\<lparr>status := s\<rparr>) \<in> set (itemsInContainer v))"
        by blast
    next
      assume "status e = Stale \<and> (\<exists>s. (k, e\<lparr>status := s\<rparr>) \<in> set (itemsInContainer v))"
      then obtain s where "status e = Stale" "(k, e\<lparr>status := s\<rparr>) \<in> set (itemsInContainer v)"
        by blast
      then have "(k, (e\<lparr>status := s\<rparr>)\<lparr>status := Stale\<rparr>) \<in> set (itemsInContainer (mark_stale v))"
        by (force simp: mark_stale_def)
      moreover have "(e\<lparr>status := s\<rparr>)\<lparr>status := Stale\<rparr> = e"
        using \<open>status e = Stale\<close> by simp
      ultimately show "(k, e) \<in> set (itemsInContainer (mark_stale v))" by simp
    qed
    finally show ?thesis .
  qed
qed

lemma finalItem_min: "finalItem from v = min (totalRows v) (from + cachedItemsLen v)"
  by (simp add: finalItem_def)

lemma renderChunk_active:
  assumes wf: "wf [] v" and rc: "renderChunk from v = Inr v'"
  shows "set (active_indices v') = {from..<finalItem from v}"
    and "length (active_indices v') = finalItem from v - from"
    and "distinct (active_indices v')"
proof -
  from renderChunk_wf [OF wf, of "from"] rc have wf': "wf [] v'" by simp
  then have "distinct (map fst (itemsInContainer v'))" by (simp add: wf_def)
  then show d: "distinct (active_indices v')"
    by (simp add: active_indices_def distinct_map_filter)
  show s: "set (active_indices v') = {from..<finalItem from v}"
  proof (intro set_eqI iffI)
    fix k assume "k \<in> set (active_indices v')"
    then obtain e where e: "(k, e) \<in> set (itemsInContainer v')" "status e = Active"
      by (auto simp: active_indices_def)
    show "k \<in> {from..<finalItem from v}"
    proof (rule ccontr)
      assume "k \<notin> {from..<finalItem from v}"
      then have "\<not> (from \<le> k \<and> k < finalItem from v)" by simp
      from renderChunk_table(2) [OF rc this, of e] e show False by simp
    qed
  next
    fix k assume "k \<in> {from..<finalItem from v}"
    then have "from \<le> k" "k < finalItem from v" by simp_all
    from renderChunk_table(1) [OF rc this]
    obtain r where "(k, \<lparr>status = Active, node = r\<rparr>) \<in> set (itemsInContainer v')" by blast
    then show "k \<in> set (active_indices v')"
      by (force simp: active_indices_def)
  qed
  from distinct_card [OF d] s show "length (active_indices v') = finalItem from v - from"
    by simp
qed

lemma rmNodes_spec:
  assumes "wf [] v" and "distinct ks" and "set ks \<subseteq> fst ` set (itemsInContainer v)"
  shows "\<exists>v'. rmNodes ks v = Inr v' \<and> wf [] v' \<and> same_config v v' \<and>
           lastRepaintY v' = lastRepaintY v \<and> lastScrolled v' = lastScrolled v \<and>
           length (heap v') = length (heap v) \<and>
           itemsInContainer v' = filter (\<lambda>p. fst p \<notin> set ks) (itemsInContainer v) \<and>
           container v' =
             filter (\<lambda>r. r \<notin> (\<lambda>p. node (snd p)) ` {p \<in> set (itemsInContainer v). fst p \<in> set ks})
               (container v)"
  using assms
proof (induction ks arbitrary: v)
  case Nil
  then show ?case by simp
next
  case (Cons index rest)
  let ?T = "itemsInContainer v"
  from Cons.prems have dk: "distinct (map fst ?T)" and dn: "distinct (nodes_of ?T)"
    by (simp_all add: wf_def)
  from Cons.prems(3) obtain badItem where mem: "(index, badItem) \<in> set ?T"
    by auto
  with dk have look: "map_of ?T index = Some badItem" by simp
  from Cons.prems(1) mem have inC: "node badItem \<in> set (container v)"
    by (fastforce simp: wf_def)
  let ?v1 = "v\<lparr>container := removeAll (node badItem) (container v),
               heap := modify (node badItem) (\<lambda>n. n\<lparr>display := []\<rparr>) (heap v),
               itemsInContainer := tbl_delete index ?T\<rparr>"
  have step: "rmNodes (index # rest) v = rmNodes rest ?v1"
    using look inC by simp
  have uniq: "p = (index, badItem)" if "p \<in> set ?T" "fst p = index" for p
    using dk that mem by (metis eq_key_imp_eq_value prod.collapse)
  have other: "node (snd p) \<noteq> node badItem" if "p \<in> set ?T" "fst p \<noteq> index" for p
  proof
    assume "node (snd p) = node badItem"
    moreover from dn have "inj_on (\<lambda>p. node (snd p)) (set ?T)"
      by (simp add: nodes_of_def distinct_map)
    ultimately have "p = (index, badItem)"
      using that(1) mem inj_onD [of "\<lambda>p. node (snd p)" "set ?T" p "(index, badItem)"] by simp
    with that(2) show False by simp
  qed
  have T1: "itemsInContainer ?v1 = filter (\<lambda>p. fst p \<noteq> index) ?T"
    and C1: "container ?v1 = removeAll (node badItem) (container v)"
    and H1: "length (heap ?v1) = length (heap v)" and I1: "items ?v1 = items v"
    by (simp_all add: tbl_delete_def)
  have wf1: "wf [] ?v1"
    unfolding wf_def T1 C1 H1 I1
  proof (intro conjI ballI)
    show "items_ok (items v) (length (heap v))"
      using Cons.prems(1) by (simp add: wf_def)
    show "distinct (map fst (filter (\<lambda>p. fst p \<noteq> index) ?T))"
      using dk by (rule distinct_map_filter)
    show "distinct (nodes_of (filter (\<lambda>p. fst p \<noteq> index) ?T))"
      using dn unfolding nodes_of_def by (rule distinct_map_filter)
  next
    fix p assume "p \<in> set (filter (\<lambda>p. fst p \<noteq> index) ?T)"
    then have p: "p \<in> set ?T" "fst p \<noteq> index" by simp_all
    from Cons.prems(1) p(1) have *: "node (snd p) < length (heap v)"
      "node (snd p) \<in> set (container v)" "from_item (items v) p"
      unfolding wf_def by auto
    show "node (snd p) < length (heap v)" by (rule *)
    show "node (snd p) \<in> set (removeAll (node badItem) (container v)) \<union> set []"
      using * other [OF p] by simp
    show "from_item (items v) p" by (rule *)
  qed
  have d1: "distinct rest" using Cons.prems(2) by simp
  have sub1: "set rest \<subseteq> fst ` set (itemsInContainer ?v1)"
  proof
    fix x assume x: "x \<in> set rest"
    with Cons.prems(2) have "x \<noteq> index" by auto
    moreover from x Cons.prems(3) obtain p where "p \<in> set ?T" "fst p = x" by auto
    ultimately have "p \<in> set (filter (\<lambda>p. fst p \<noteq> index) ?T)" by simp
    with \<open>fst p = x\<close> show "x \<in> fst ` set (itemsInContainer ?v1)"
      unfolding T1 by (metis imageI)
  qed
  from Cons.IH [OF wf1 d1 sub1] obtain v' where
    r: "rmNodes rest ?v1 = Inr v'" and w: "wf [] v'" and c: "same_config ?v1 v'"
    and y: "lastRepaintY v' = lastRepaintY ?v1" and l: "lastScrolled v' = lastScrolled ?v1"
    and h: "length (heap v') = length (heap ?v1)"
    and t: "itemsInContainer v' = filter (\<lambda>p. fst p \<notin> set rest) (itemsInContainer ?v1)"
    and k: "container v' =
             filter (\<lambda>r. r \<notin> (\<lambda>p. node (snd p)) ` {p \<in> set (itemsInContainer ?v1). fst p \<in> set rest})
               (container ?v1)"
    by blast
  have t': "itemsInContainer v' = filter (\<lambda>p. fst p \<notin> set (index # rest)) ?T"
    unfolding t T1 by (simp add: conj_commute)
  let ?N1 = "(\<lambda>p. node (snd p)) ` {p \<in> set (filter (\<lambda>p. fst p \<noteq> index) ?T). fst p \<in> set rest}"
  let ?N = "(\<lambda>p. node (snd p)) ` {p \<in> set ?T. fst p \<in> set (index # rest)}"
  have nodes: "?N = insert (node badItem) ?N1"
  proof (intro set_eqI iffI)
    fix n assume "n \<in> ?N"
    then obtain p where p: "p \<in> set ?T" "fst p \<in> set (index # rest)" "n = node (snd p)"
      by blast
    show "n \<in> insert (node badItem) ?N1"
    proof (cases "fst p = index")
      case True
      with uniq [OF p(1)] p(3) show ?thesis by simp
    next
      case False
      with p have "p \<in> {p \<in> set (filter (\<lambda>p. fst p \<noteq> index) ?T). fst p \<in> set rest}"
        by simp
      with p(3) show ?thesis by blast
    qed
  next
    fix n assume "n \<in> insert (node badItem) ?N1"
    then consider "n = node badItem" | "n \<in> ?N1" by blast
    then show "n \<in> ?N"
    proof cases
      case 1
      have "(index, badItem) \<in> {p \<in> set ?T. fst p \<in> set (index # rest)}"
        using mem by simp
      then have "node (snd (index, badItem)) \<in> ?N" by (rule imageI)
      with 1 show ?thesis by simp
    next
      case 2
      then obtain p where "p \<in> set ?T" "fst p \<in> set rest" "n = node (snd p)"
        by auto
      then have "p \<in> {p \<in> set ?T. fst p \<in> set (index # rest)}" by simp
      with \<open>n = node (snd p)\<close> show ?thesis by blast
    qed
  qed
  have k': "container v' = filter (\<lambda>r. r \<notin> ?N) (container v)"
    unfolding nodes k T1 C1 by (simp add: removeAll_filter_not_eq conj_commute eq_commute)
  have c': "same_config v v'" using c by (simp add: same_config_def)
  have "rmNodes (index # rest) v = Inr v'" using step r by simp
  moreover have "lastRepaintY v' = lastRepaintY v" "lastScrolled v' = lastScrolled v"
    "length (heap v') = length (heap v)"
    using y l h by simp_all
  ultimately show ?case
    using w c' t' k' by blast
qed

lemma badItemIndicies_eq:
  assumes "distinct (map fst (itemsInContainer v))"
  shows "badItemIndicies v =
           map fst (filter (\<lambda>p. status (snd p) = Stale) (itemsInContainer v))"
proof -
  have "map_of (itemsInContainer v) (fst p) = Some (snd p)" if "p \<in> set (itemsInContainer v)" for p
    using assms that by simp
  then have "filter ((\<lambda>index. case map_of (itemsInContainer v) index of
                        Some e \<Rightarrow> status e = Stale | None \<Rightarrow> False) \<circ> fst) (itemsInContainer v) =
        filter (\<lambda>p. status (snd p) = Stale) (itemsInContainer v)"
    by (intro filter_cong) simp_all
  then show ?thesis
    by (simp add: badItemIndicies_def object_keys_def filter_map)
qed

lemma key_unique:
  "distinct (map fst t) \<Longrightarrow> p \<in> set t \<Longrightarrow> q \<in> set t \<Longrightarrow> fst p = fst q \<Longrightarrow> p = q"
  by (metis eq_key_imp_eq_value prod.collapse)

lemma node_unique:
  "distinct (nodes_of t) \<Longrightarrow> p \<in> set t \<Longrightarrow> q \<in> set t \<Longrightarrow> node (snd p) = node (snd q) \<Longrightarrow> p = q"
  using inj_onD [of "\<lambda>p. node (snd p)" "set t" p q]
  by (simp add: nodes_of_def distinct_map)

lemma rmNodeInterval_acts:
  assumes wf: "wf [] v" and settled: "100 < now - lastScrolled v"
  shows "\<exists>v'. rmNodeInterval now v = Inr v' \<and> wf [] v' \<and> same_config v v' \<and>
           lastRepaintY v' = lastRepaintY v \<and> lastScrolled v' = lastScrolled v \<and>
           length (heap v') = length (heap v) \<and>
           itemsInContainer v' = filter (\<lambda>p. status (snd p) = Active) (itemsInContainer v) \<and>
           container v' = filter (\<lambda>r. r \<notin> set (stale_nodes v)) (container v)"
proof -
  let ?T = "itemsInContainer v"
  let ?ks = "badItemIndicies v"
  from wf have dk: "distinct (map fst ?T)" by (simp add: wf_def)
  note ks = badItemIndicies_eq [OF dk]
  have d: "distinct ?ks"
    unfolding ks using dk by (rule distinct_map_filter)
  have sub: "set ?ks \<subseteq> fst ` set ?T"
    unfolding ks by auto
  have stale_iff: "fst p \<in> set ?ks \<longleftrightarrow> status (snd p) = Stale" if "p \<in> set ?T" for p
  proof
    assume "fst p \<in> set ?ks"
    then obtain q where q: "q \<in> set ?T" "status (snd q) = Stale" "fst q = fst p"
      unfolding ks by auto
    with key_unique [OF dk q(1) that] show "status (snd p) = Stale" by simp
  next
    assume "status (snd p) = Stale"
    with that show "fst p \<in> set ?ks" unfolding ks by force
  qed
  have t: "filter (\<lambda>p. fst p \<notin> set ?ks) ?T = filter (\<lambda>p. status (snd p) = Active) ?T"
  proof (rule filter_cong [OF refl])
    fix p assume "p \<in> set ?T"
    from stale_iff [OF this] show "(fst p \<notin> set ?ks) = (status (snd p) = Active)"
      by (cases "status (snd p)") simp_all
  qed
  have n: "(\<lambda>p. node (snd p)) ` {p \<in> set ?T. fst p \<in> set ?ks} = set (stale_nodes v)"
    using stale_iff by (auto simp: stale_nodes_def)
  from rmNodes_spec [OF wf d sub] show ?thesis
    unfolding t n using settled by (simp add: rmNodeInterval_def)
qed

lemma rmNodeInterval_idle: "now - lastScrolled v \<le> 100 \<Longrightarrow> rmNodeInterval now v = Inr v"
  by (simp add: rmNodeInterval_def)

lemma active_not_stale_node:
  assumes "wf [] v" and "p \<in> set (itemsInContainer v)" and "status (snd p) = Active"
  shows "node (snd p) \<notin> set (stale_nodes v)" and "node (snd p) \<in> set (container v)"
proof -
  from assms(1) have dn: "distinct (nodes_of (itemsInContainer v))" by (simp add: wf_def)
  show "node (snd p) \<notin> set (stale_nodes v)"
  proof
    assume "node (snd p) \<in> set (stale_nodes v)"
    then obtain q where q: "q \<in> set (itemsInContainer v)" "status (snd q) = Stale"
      "node (snd q) = node (snd p)"
      by (auto simp: stale_nodes_def)
    from node_unique [OF dn q(1) assms(2) q(3)] q(2) assms(3) show False by simp
  qed
  from assms(1,2) show "node (snd p) \<in> set (container v)"
    by (fastforce simp: wf_def)
qed

lemma onScroll_wf:
  assumes "wf [] v"
  shows "\<exists>v'. onScroll scrollTop now v = Inr v' \<and> wf [] v' \<and> same_config v v'"
proof (cases "needs_repaint scrollTop v")
  case True
  from renderChunk_wf [OF assms, of "first_row scrollTop v"] obtain v1 where
    rc: "renderChunk (first_row scrollTop v) v = Inr v1" and w: "wf [] v1"
    by blast
  from w have "wf [] (v1\<lparr>lastRepaintY := Some scrollTop, lastScrolled := now\<rparr>)"
    by (simp add: wf_def)
  moreover have "same_config v (v1\<lparr>lastRepaintY := Some scrollTop, lastScrolled := now\<rparr>)"
    using renderChunk_frame(1) [OF rc] by (simp add: same_config_def)
  ultimately show ?thesis
    using True rc by (simp add: onScroll_def)
next
  case False
  from assms have "wf [] (v\<lparr>lastScrolled := now\<rparr>)"
    by (simp add: wf_def)
  with False show ?thesis
    by (simp add: onScroll_def same_config_def)
qed

lemma step_wf:
  assumes "wf [] v"
  shows "\<exists>v'. step e v = Inr v' \<and> wf [] v' \<and> same_config v v'"
proof (cases e)
  case (Scroll scrollTop now)
  with onScroll_wf [OF assms] show ?thesis by simp
next
  case (Tick now)
  show ?thesis
  proof (cases "100 < now - lastScrolled v")
    case True
    from rmNodeInterval_acts [OF assms True] Tick show ?thesis by auto
  next
    case False
    with assms Tick show ?thesis by (simp add: rmNodeInterval_def)
  qed
qed

lemma run_wf:
  "wf [] v \<Longrightarrow> \<exists>v'. run es v = Inr v' \<and> wf [] v' \<and> same_config v v'"
proof (induction es arbitrary: v)
  case Nil
  then show ?case by simp
next
  case (Cons e es)
  from step_wf [OF Cons.prems] obtain v1 where
    s: "step e v = Inr v1" and w: "wf [] v1" and c: "same_config v v1"
    by blast
  from Cons.IH [OF w] obtain v' where "run es v1 = Inr v'" "wf [] v'" "same_config v1 v'"
    by blast
  with s c show ?case
    by (auto intro: same_config_trans)
qed

lemma init_vlist_wf:
  assumes "config_ok c doc"
  shows "wf [] (init_vlist c doc)"
proof -
  have "items_ok (case config_items c of Some xs \<Rightarrow> xs | None \<Rightarrow> []) (Suc (length doc))"
    using assms unfolding config_ok_def by (rule items_ok_mono [rotated]) simp
  then show ?thesis
    by (simp add: wf_def init_vlist_def Let_def nodes_of_def)
qed

lemma VirtualList_wf:
  assumes "config_ok c doc"
  shows "\<exists>v0. VirtualList c doc = Inr v0 \<and> wf [] v0 \<and> same_config (init_vlist c doc) v0"
  using renderChunk_wf [OF init_vlist_wf [OF assms], of 0] renderChunk_frame(1)
  by (fastforce simp: VirtualList_def)

lemma reachable_wf:
  assumes "config_ok c doc" and "VirtualList c doc = Inr v0" and "run es v0 = Inr v"
  shows "wf [] v" and "same_config (init_vlist c doc) v"
proof -
  from VirtualList_wf [OF assms(1)] assms(2) have "wf [] v0" "same_config (init_vlist c doc) v0"
    by auto
  with run_wf [of v0 es] assms(3) show "wf [] v" and "same_config (init_vlist c doc) v"
    by (auto intro: same_config_trans)
qed

lemmas example_defs =
  example_doc_def example_items_def example_config_def init_vlist_def math_ceil_quot_def
  createScroller_def new_div_def

section \<open>The example runs\<close>

lemma example_ok: "config_ok example_config example_doc"
  by (simp add: config_ok_def items_ok_def example_defs)

lemma example_v0_eq: "VirtualList example_config example_doc = Inr example_v0"
  unfolding example_v0_def by code_simp

lemma example_at_8_eq: "run [Scroll 8 1000] example_v0 = Inr example_at_8"
  unfolding example_at_8_def example_v0_def by code_simp

lemma example_at_2_eq: "run [Scroll 2 1000] example_v0 = Inr example_at_2"
  unfolding example_at_2_def example_v0_def by code_simp

lemma example_back_eq: "run [Scroll 8 1000, Scroll 0 1010] example_v0 = Inr example_back"
  unfolding example_back_def example_v0_def by code_simp

section \<open>Window correctness\<close>

lemma ceil_nat_bounds:
  fixes a b :: nat
  assumes "0 < b"
  shows "a \<le> ((a + b - 1) div b) * b" and "((a + b - 1) div b) * b < a + b"
proof -
  let ?z = "(a + b - 1) div b"
  have "(a + b - 1) mod b < b" using assms by simp
  moreover have e: "?z * b + (a + b - 1) mod b = a + b - 1" by simp
  ultimately have "a + b - 1 < ?z * b + b" by linarith
  with assms show "a \<le> ?z * b" by linarith
  from e have "?z * b \<le> a + b - 1" by linarith
  with assms show "?z * b < a + b" by linarith
qed

lemma math_ceil_quot_ceiling:
  assumes "0 < b"
  shows "int (math_ceil_quot a b) = \<lceil>real a / real b\<rceil>"
proof -
  let ?z = "(a + b - 1) div b"
  have b: "0 < real b" using assms by simp
  have "real a \<le> real (?z * b)" using ceil_nat_bounds(1) [OF assms, of a] by (simp only: of_nat_le_iff)
  then have up: "real a / real b \<le> real ?z" using b by (simp add: pos_divide_le_eq)
  have "real (?z * b) < real (a + b)" using ceil_nat_bounds(2) [OF assms, of a] by (simp only: of_nat_less_iff)
  then have "real ?z * real b - real b < real a" by simp
  then have "(real ?z - 1) * real b < real a" by (simp add: algebra_simps)
  then have lo: "real ?z - 1 < real a / real b" using b by (simp add: pos_less_divide_eq)
  have "\<lceil>real a / real b\<rceil> = int ?z"
    by (rule ceiling_unique) (use lo up in simp_all)
  then show ?thesis by (simp add: math_ceil_quot_def)
qed

text \<open>
  In decimal notation \<open>parseInt\<close> of the quotient is its floor when the offset is not negative,
  and for a negative offset the result is never positive.
\<close>

lemma parseInt_quot_floor:
  assumes "0 \<le> a" and "a = 0 \<or> int b \<le> 1000000 * a" and "a < 1000000000000000000000"
  shows "parseInt_quot a b = \<lfloor>real_of_int a / real b\<rfloor>"
proof -
  have fl: "\<lfloor>real_of_int a / real b\<rfloor> = a div int b"
    using floor_divide_of_int_eq [of a "int b", where ?'a = real] by simp
  have "a div int b \<le> a"
    using assms(1) by (cases "b = 0") (simp_all add: zdiv_mono2 [of a 1 "int b", simplified])
  with assms(3) have "\<not> 1000000000000000000000 \<le> a div int b" by linarith
  with assms(1,2) have "parseInt_quot a b = a div int b"
    by (auto simp: parseInt_quot_def parseInt_nonneg_def)
  with fl show ?thesis by simp
qed

lemma first_digit_small_nonneg:
  "0 \<le> m \<Longrightarrow> 0 \<le> b \<Longrightarrow> 0 \<le> first_digit_small m b"
proof (induction m b rule: first_digit_small.induct)
  case (1 m b)
  show ?case
  proof (cases "m \<le> 0 \<or> b \<le> m")
    case True
    then have "first_digit_small m b = m div b"
      by (subst first_digit_small.simps) simp
    with "1.prems" show ?thesis by (simp add: pos_imp_zdiv_nonneg_iff div_int_pos_iff)
  next
    case False
    then have "first_digit_small m b = first_digit_small (10 * m) b"
      by (subst first_digit_small.simps) simp
    with "1.IH" [OF False] "1.prems" show ?thesis by simp
  qed
qed

lemma first_digit_big_nonneg:
  "0 \<le> n \<Longrightarrow> 0 \<le> first_digit_big n"
proof (induction n rule: first_digit_big.induct)
  case (1 n)
  show ?case
  proof (cases "n < 10")
    case True
    then have "first_digit_big n = n"
      by (subst first_digit_big.simps) simp
    with "1.prems" show ?thesis by simp
  next
    case False
    then have "first_digit_big n = first_digit_big (n div 10)"
      by (subst first_digit_big.simps) simp
    with "1.IH" [OF False] "1.prems" show ?thesis by (simp add: pos_imp_zdiv_nonneg_iff)
  qed
qed

lemma parseInt_nonneg_nonneg:
  assumes "0 \<le> m" and "0 \<le> b"
  shows "0 \<le> parseInt_nonneg m b"
proof -
  from assms have "0 \<le> m div b" by (simp add: div_int_pos_iff)
  with assms show ?thesis
    by (simp add: parseInt_nonneg_def first_digit_small_nonneg first_digit_big_nonneg)
qed

lemma parseInt_quot_neg:
  assumes "a < 0"
  shows "parseInt_quot a b \<le> 0"
  using assms parseInt_nonneg_nonneg [of "- a" "int b"] by (simp add: parseInt_quot_def)

text \<open>
  Quotients printed in exponent notation: \<open>5 / 10000000\<close> is printed as \<open>5e-7\<close>,
  \<open>1 / 3000000\<close> as \<open>3.3333333333333335e-7\<close> and \<open>10\<^sup>2\<^sup>1 / 1\<close> as \<open>1e+21\<close>.
\<close>

lemma parseInt_quot_exponent:
  "parseInt_quot 5 10000000 = 5"
  "parseInt_quot 1 3000000 = 3"
  "parseInt_quot (- 5) 10000000 = - 5"
  "parseInt_quot 1000000000000000000000 1 = 1"
  "parseInt_quot 205 20 = 10"
  by (simp_all add: parseInt_quot_def parseInt_nonneg_def first_digit_small.simps
      first_digit_big.simps)

lemma first_row_spec:
  assumes "decimal_quotient s (itemHeight v)"
  shows "int (first_row s v) =
           spec_first s (itemHeight v) (int (screenItemsLen v))"
proof (cases "0 \<le> s")
  case True
  from assms have "s = 0 \<or> int (itemHeight v) \<le> 1000000 * s"
    and "s < 1000000000000000000000"
    using True by (auto simp: decimal_quotient_def)
  from parseInt_quot_floor [OF True this] show ?thesis
    by (simp add: first_row_def spec_first_def Let_def)
next
  case False
  then have neg: "s < 0" by simp
  from assms have pos: "0 < itemHeight v" by (simp add: decimal_quotient_def)
  have "real_of_int s / real (itemHeight v) < 0"
    using neg pos by (simp add: divide_neg_pos)
  then have fl: "\<lfloor>real_of_int s / real (itemHeight v)\<rfloor> < 0"
    by (simp add: floor_less_iff)
  have "parseInt_quot s (itemHeight v) \<le> 0"
    using neg by (rule parseInt_quot_neg)
  then have a: "first_row s v = 0"
    by (simp add: first_row_def Let_def)
  have b: "spec_first s (itemHeight v) (int (screenItemsLen v)) = 0"
    unfolding spec_first_def using fl by linarith
  show ?thesis by (simp only: a b of_nat_0)
qed

text \<open>
  Where the quotient is printed in decimal notation the window is the one of the
  specification: in a state reached from the construction of a list whose items the default
  factory can render, a scroll event at such an offset \<open>s\<close> that triggers a re-plan succeeds,
  and afterwards the indices with status Active are exactly those from
  \<open>first = max(0, floor(s / rowHeight) - visibleCount)\<close> up to but excluding
  \<open>min(totalRows, first + bufferSize)\<close>, with \<open>visibleCount = ceil(h / rowHeight)\<close>; all of
  them lie below \<open>totalRows\<close>.
\<close>

lemma onScroll_window_decimal:
  assumes ok: "config_ok c doc" and dec: "decimal_quotient s (config_itemHeight c)"
    and init: "VirtualList c doc = Inr v0" and reach: "run es v0 = Inr v"
    and trig: "needs_repaint s v"
  shows "\<exists>v'. onScroll s now v = Inr v' \<and> lastRepaintY v' = Some s \<and>
           set (active_indices v') =
             {i. spec_first s (config_itemHeight c)
                   (spec_visibleCount (config_h c) (config_itemHeight c)) \<le> int i \<and>
                 int i < spec_last (int (totalRows v))
                   (spec_first s (config_itemHeight c)
                      (spec_visibleCount (config_h c) (config_itemHeight c)))
                   (int (cachedItemsLen v))} \<and>
           set (active_indices v') \<subseteq> {0..<totalRows v}"
proof -
  note r = reachable_wf [OF ok init reach]
  from dec have pos: "0 < config_itemHeight c" by (simp add: decimal_quotient_def)
  from r(2) have ih: "itemHeight v = config_itemHeight c"
    and scr: "screenItemsLen v = math_ceil_quot (config_h c) (config_itemHeight c)"
    by (simp_all add: same_config_def init_vlist_def Let_def)
  let ?from = "first_row s v"
  from renderChunk_wf [OF r(1), of ?from] obtain v1 where
    rc: "renderChunk ?from v = Inr v1" by blast
  let ?v' = "v1\<lparr>lastRepaintY := Some s, lastScrolled := now\<rparr>"
  have os: "onScroll s now v = Inr ?v'"
    using trig rc by (simp add: onScroll_def)
  have act: "set (active_indices ?v') = {?from..<finalItem ?from v}"
    using renderChunk_active(1) [OF r(1) rc] by (simp add: active_indices_def)
  have f: "int ?from = spec_first s (config_itemHeight c)
                   (spec_visibleCount (config_h c) (config_itemHeight c))"
    using first_row_spec [of s v] dec pos
    by (simp add: ih scr spec_visibleCount_def math_ceil_quot_ceiling)
  have "{?from..<finalItem ?from v} =
      {i. int ?from \<le> int i \<and> int i < spec_last (int (totalRows v)) (int ?from) (int (cachedItemsLen v))}"
    by (auto simp: finalItem_min spec_last_def)
  with act f have "set (active_indices ?v') =
             {i. spec_first s (config_itemHeight c)
                   (spec_visibleCount (config_h c) (config_itemHeight c)) \<le> int i \<and>
                 int i < spec_last (int (totalRows v))
                   (spec_first s (config_itemHeight c)
                      (spec_visibleCount (config_h c) (config_itemHeight c)))
                   (int (cachedItemsLen v))}"
    by simp
  moreover have "set (active_indices ?v') \<subseteq> {0..<totalRows v}"
    unfolding act by (auto simp: finalItem_min)
  ultimately show ?thesis
    using os by auto
qed

lemma onScroll_window_decimal_example:
  "config_ok example_config example_doc \<and>
   decimal_quotient 8 (config_itemHeight example_config) \<and>
   VirtualList example_config example_doc = Inr example_v0 \<and>
   run [] example_v0 = Inr example_v0 \<and> needs_repaint 8 example_v0 \<and>
   (\<exists>v'. onScroll 8 1000 example_v0 = Inr v' \<and> lastRepaintY v' = Some 8 \<and>
           set (active_indices v') =
             {i. spec_first 8 (config_itemHeight example_config)
                   (spec_visibleCount (config_h example_config) (config_itemHeight example_config))
                     \<le> int i \<and>
                 int i < spec_last (int (totalRows example_v0))
                   (spec_first 8 (config_itemHeight example_config)
                      (spec_visibleCount (config_h example_config)
                         (config_itemHeight example_config)))
                   (int (cachedItemsLen example_v0))} \<and>
           set (active_indices v') \<subseteq> {0..<totalRows example_v0}) \<and>
   spec_first 8 (config_itemHeight example_config)
     (spec_visibleCount (config_h example_config) (config_itemHeight example_config)) = 6 \<and>
   active_indices example_at_8 = [6, 7, 8, 9]"
proof -
  have dec: "decimal_quotient 8 (config_itemHeight example_config)"
    by (simp add: example_config_def decimal_quotient_def)
  have r: "run [] example_v0 = Inr example_v0"
    by simp
  have trig: "needs_repaint 8 example_v0"
    unfolding example_v0_def by code_simp
  have f: "spec_first 8 (config_itemHeight example_config)
     (spec_visibleCount (config_h example_config) (config_itemHeight example_config)) = 6"
    by (simp add: spec_first_def spec_visibleCount_def example_config_def)
  have a: "active_indices example_at_8 = [6, 7, 8, 9]"
    unfolding example_at_8_def example_v0_def by code_simp
  show ?thesis
    using example_ok dec example_v0_eq r trig f a
      onScroll_window_decimal [OF example_ok dec example_v0_eq r trig, of 1000]
    by blast
qed

lemma tall_ok: "config_ok tall_config []"
  by (simp add: config_ok_def items_ok_def tall_config_def)

text \<open>
  Claim C1. The window is \<open>[max(0, floor(s / rowHeight) - visibleCount),
  min(totalRows, first + bufferSize))\<close> for every offset \<open>s\<close> that triggers a re-plan. The
  handler takes \<open>parseInt\<close> of the quotient where the claim takes its floor, and the two
  differ where the quotient is printed in exponent notation. In a list of ten rows of height
  \<open>10\<^sup>7\<close> in a viewport of height 600 (one visible row, a buffer of three) the first scroll
  event, at offset 5, triggers a re-plan; the quotient \<open>5e-7\<close> is read as 5, the first row is
  \<open>5 - 1 = 4\<close> and rows 4 to 6 become Active, where the claim has
  \<open>first = max(0, 0 - 1) = 0\<close> and the window \<open>[0, 3)\<close>.
\<close>

theorem onScroll_window_tall_rows:
  "VirtualList tall_config [] = Inr tall_v0 \<and>
   lastRepaintY tall_v0 = None \<and>
   needs_repaint 5 tall_v0 \<and>
   onScroll 5 1000 tall_v0 = Inr tall_at_5 \<and>
   parseInt_quot 5 (itemHeight tall_v0) = 5 \<and>
   first_row 5 tall_v0 = 4 \<and>
   set (active_indices tall_at_5) = {4, 5, 6} \<and>
   0 \<notin> set (active_indices tall_at_5) \<and>
   spec_visibleCount (config_h tall_config) (config_itemHeight tall_config) = 1 \<and>
   spec_first 5 (config_itemHeight tall_config)
     (spec_visibleCount (config_h tall_config) (config_itemHeight tall_config)) = 0 \<and>
   spec_last (int (totalRows tall_v0))
     (spec_first 5 (config_itemHeight tall_config)
        (spec_visibleCount (config_h tall_config) (config_itemHeight tall_config)))
     (int (cachedItemsLen tall_v0)) = 3"
proof -
  from VirtualList_wf [OF tall_ok] obtain v0 where
    i: "VirtualList tall_config [] = Inr v0" and w0: "wf [] v0"
    and c0: "same_config (init_vlist tall_config []) v0"
    by blast
  have v0: "tall_v0 = v0" by (simp add: tall_v0_def i)
  have init: "VirtualList tall_config [] = Inr tall_v0" by (simp add: v0 i)
  have w: "wf [] tall_v0" using w0 by (simp add: v0)
  have ih: "itemHeight tall_v0 = 10000000" and scr: "screenItemsLen tall_v0 = 1"
    and tot: "totalRows tall_v0 = 10" and buf: "cachedItemsLen tall_v0 = 3"
    using c0 by (simp_all add: v0 same_config_def init_vlist_def Let_def tall_config_def
        math_ceil_quot_def)
  have lr: "lastRepaintY tall_v0 = None"
    using renderChunk_frame(2) [OF i [unfolded VirtualList_def]]
    by (simp add: v0 init_vlist_def Let_def)
  have trig: "needs_repaint 5 tall_v0"
    by (simp add: needs_repaint_def lr)
  have pq: "parseInt_quot 5 (itemHeight tall_v0) = 5"
    by (simp add: ih parseInt_quot_def parseInt_nonneg_def first_digit_small.simps)
  have fr: "first_row 5 tall_v0 = 4"
    by (simp add: first_row_def pq scr Let_def)
  from renderChunk_wf [OF w, of 4] obtain v1 where
    rc: "renderChunk 4 tall_v0 = Inr v1" by blast
  let ?v' = "v1\<lparr>lastRepaintY := Some 5, lastScrolled := 1000\<rparr>"
  have os: "onScroll 5 1000 tall_v0 = Inr ?v'"
    using trig rc by (simp add: onScroll_def fr)
  then have at5: "tall_at_5 = ?v'" by (simp add: tall_at_5_def)
  have fin: "finalItem 4 tall_v0 = 7" by (simp add: finalItem_def tot buf)
  have "set (active_indices tall_at_5) = {4..<7}"
    using renderChunk_active(1) [OF w rc] by (simp add: at5 active_indices_def fin)
  also have "{4..<7::nat} = {4, 5, 6}" by auto
  finally have act: "set (active_indices tall_at_5) = {4, 5, 6}" .
  have vc': "spec_visibleCount 600 10000000 = 1"
    using math_ceil_quot_ceiling [of 10000000 600]
    by (simp add: spec_visibleCount_def math_ceil_quot_def)
  then have vc: "spec_visibleCount (config_h tall_config) (config_itemHeight tall_config) = 1"
    by (simp add: tall_config_def)
  have "\<lfloor>real_of_int 5 / real 10000000\<rfloor> = 0"
    using floor_divide_of_int_eq [of 5 10000000, where ?'a = real] by simp
  then have sf: "spec_first 5 (config_itemHeight tall_config)
     (spec_visibleCount (config_h tall_config) (config_itemHeight tall_config)) = 0"
    by (simp add: vc' spec_first_def tall_config_def)
  have sl: "spec_last (int (totalRows tall_v0))
     (spec_first 5 (config_itemHeight tall_config)
        (spec_visibleCount (config_h tall_config) (config_itemHeight tall_config)))
     (int (cachedItemsLen tall_v0)) = 3"
    by (simp add: sf spec_last_def tot buf)
  show ?thesis
    using init lr trig os [folded at5] pq fr act vc sf sl by simp
qed

section \<open>The Active entries between events\<close>

lemma render_rows_keeps_nodes:
  "render_rows is fragment v = Inr (fragment', v') \<Longrightarrow>
     set (container v) \<union> set fragment \<subseteq> set (container v') \<union> set fragment'"
proof (induction "is" arbitrary: fragment v)
  case Nil
  then show ?case by simp
next
  case (Cons i rest)
  from Cons.prems obtain r v1 where cr: "createRow i v = Inr (r, v1)"
    and rest: "render_rows rest (removeAll r fragment @ [r])
                 (v1\<lparr>container := removeAll r (container v1)\<rparr>) = Inr (fragment', v')"
    by (rule render_rows_ConsE)
  from Cons.IH [OF rest] createRow_fields(2) [OF cr] show ?case
    by auto
qed

lemma renderChunk_keeps_nodes:
  assumes "renderChunk from v = Inr v'"
  shows "set (container v) \<subseteq> set (container v')"
proof -
  from assms obtain fragment v1 where
    rr: "render_rows [from..<finalItem from v] [] (mark_stale v) = Inr (fragment, v1)"
    and v': "v' = v1\<lparr>container := container v1 @ fragment\<rparr>"
    by (rule renderChunk_Inr)
  from render_rows_keeps_nodes [OF rr] show ?thesis
    by (simp add: v' mark_stale_def)
qed











section \<open>Re-planning over the same range\<close>

lemma entry_eq: "status e = status e' \<Longrightarrow> node e = node e' \<Longrightarrow> (e :: entry) = e'"
  by simp

lemma wf_entryD:
  assumes "wf [] v" and "(k, e) \<in> set (itemsInContainer v)"
  shows "from_item (items v) (k, e)" and "node e < length (heap v)"
    and "node e \<in> set (container v)"
  using assms by (fastforce simp: wf_def)+

lemma active_entry:
  assumes "wf [] v" and "k \<in> set (active_indices v)" and "(k, e) \<in> set (itemsInContainer v)"
  shows "status e = Active"
proof -
  from assms(2) obtain e' where e': "(k, e') \<in> set (itemsInContainer v)" "status e' = Active"
    by (auto simp: active_indices_def)
  from assms(1) have "distinct (map fst (itemsInContainer v))" by (simp add: wf_def)
  from key_unique [OF this assms(3) e'(1)] e'(2) show ?thesis by simp
qed

lemma inactive_entry:
  assumes "k \<notin> set (active_indices v)" and "(k, e) \<in> set (itemsInContainer v)"
  shows "status e = Stale"
  using assms by (cases "status e") (force simp: active_indices_def)+

text \<open>
  Claim C3 says that a re-plan yielding the range that is already Active changes nothing. In
  the example the first scroll event, at offset 2, re-plans over the rows 0 to 5 that
  construction made Active: the rows other than the pre-built one get newly created nodes,
  which are appended to the container while the old ones stay in it.
\<close>

theorem replan_same_range_counterexample:
  "VirtualList example_config example_doc = Inr example_v0 \<and>
   needs_repaint 2 example_v0 \<and>
   onScroll 2 1000 example_v0 = Inr example_at_2 \<and>
   active_indices example_v0 = [0, 1, 2, 3, 4, 5] \<and>
   active_indices example_at_2 = [0, 1, 2, 3, 4, 5] \<and>
   container example_v0 = [1, 2, 0, 3, 4, 5, 6] \<and>
   container example_at_2 = [1, 2, 3, 4, 5, 6, 7, 0, 8, 9, 10, 11] \<and>
   nodes_of (itemsInContainer example_v0) = [2, 0, 3, 4, 5, 6] \<and>
   nodes_of (itemsInContainer example_at_2) = [7, 0, 8, 9, 10, 11] \<and>
   length (heap example_v0) = 7 \<and> length (heap example_at_2) = 12"
proof -
  have "needs_repaint 2 example_v0"
    unfolding example_v0_def by code_simp
  moreover have "onScroll 2 1000 example_v0 = Inr example_at_2"
    using example_at_2_eq by (simp split: sum.splits)
  moreover have "active_indices example_v0 = [0, 1, 2, 3, 4, 5]"
    unfolding example_v0_def by code_simp
  moreover have "active_indices example_at_2 = [0, 1, 2, 3, 4, 5]"
    unfolding example_at_2_def example_v0_def by code_simp
  moreover have "container example_v0 = [1, 2, 0, 3, 4, 5, 6]"
    unfolding example_v0_def by code_simp
  moreover have "container example_at_2 = [1, 2, 3, 4, 5, 6, 7, 0, 8, 9, 10, 11]"
    unfolding example_at_2_def example_v0_def by code_simp
  moreover have "nodes_of (itemsInContainer example_v0) = [2, 0, 3, 4, 5, 6]"
    unfolding example_v0_def by code_simp
  moreover have "nodes_of (itemsInContainer example_at_2) = [7, 0, 8, 9, 10, 11]"
    unfolding example_at_2_def example_v0_def by code_simp
  moreover have "length (heap example_v0) = 7"
    unfolding example_v0_def by code_simp
  moreover have "length (heap example_at_2) = 12"
    unfolding example_at_2_def example_v0_def by code_simp
  ultimately show ?thesis
    using example_v0_eq by blast
qed

text \<open>
  Claim C3, amended. A re-plan yielding the range that is already Active leaves unchanged
  which indices are in the table and the status of each, and takes no node out of the visual
  tree. An entry outside the range, or one whose item is a pre-built element, keeps its node;
  for every other index of the range the entry gets a newly created node, which is in the
  visual tree.
\<close>

theorem replan_same_range:
  assumes ok: "config_ok c doc" and init: "VirtualList c doc = Inr v0" and reach: "run es v0 = Inr v"
    and same: "set (active_indices v) = {from..<finalItem from v}"
  shows "\<exists>v'. renderChunk from v = Inr v' \<and>
           (\<lambda>p. (fst p, status (snd p))) ` set (itemsInContainer v') =
             (\<lambda>p. (fst p, status (snd p))) ` set (itemsInContainer v) \<and>
           set (container v) \<subseteq> set (container v') \<and>
           (\<forall>p \<in> set (itemsInContainer v).
              (fst p \<notin> {from..<finalItem from v} \<or> is_node (item_at (items v) (fst p)) \<longrightarrow>
                 p \<in> set (itemsInContainer v')) \<and>
              (fst p \<in> {from..<finalItem from v} \<and> \<not> is_node (item_at (items v) (fst p)) \<longrightarrow>
                 (\<exists>r. (fst p, \<lparr>status = Active, node = r\<rparr>) \<in> set (itemsInContainer v') \<and>
                      length (heap v) \<le> r \<and> r \<noteq> node (snd p) \<and> r \<in> set (container v'))))"
proof -
  note w = reachable_wf(1) [OF ok init reach]
  from renderChunk_wf [OF w, of "from"] obtain v' where
    rc: "renderChunk from v = Inr v'" and w': "wf [] v'" by blast
  let ?T = "itemsInContainer v" and ?T' = "itemsInContainer v'"
  let ?R = "{from..<finalItem from v}"
  note tab = renderChunk_table [OF rc]
  have it: "items v' = items v"
    using renderChunk_frame(1) [OF rc] by (simp add: same_config_def)
  have dk': "distinct (map fst ?T')" using w' by (simp add: wf_def)
  have inside: "\<exists>r. (k, \<lparr>status = Active, node = r\<rparr>) \<in> set ?T' \<and>
                  (is_node (item_at (items v) k) \<or> length (heap v) \<le> r)" if "k \<in> ?R" for k
    using tab(1) [of k] that by simp
  have outside: "(k, e) \<in> set ?T' \<longleftrightarrow>
           status e = Stale \<and> (\<exists>s. (k, e\<lparr>status := s\<rparr>) \<in> set ?T)" if "k \<notin> ?R" for k e
    using tab(2) [of k e] that by simp
  have keep_out: "p \<in> set ?T'" if p: "p \<in> set ?T" "fst p \<notin> ?R" for p
  proof -
    obtain k e where ke: "p = (k, e)" by (cases p)
    from p same ke have "status e = Stale" by (auto intro: inactive_entry)
    then have "e\<lparr>status := Stale\<rparr> = e" by simp
    with p ke have "(k, e\<lparr>status := Stale\<rparr>) \<in> set ?T" by simp
    with \<open>status e = Stale\<close> outside [of k e] p(2) ke show ?thesis by auto
  qed
  have keep_node: "p \<in> set ?T'"
    if p: "p \<in> set ?T" "fst p \<in> ?R" "is_node (item_at (items v) (fst p))" for p
  proof -
    obtain k e where ke: "p = (k, e)" by (cases p)
    from p(2) same ke have "k \<in> set (active_indices v)" by simp
    from active_entry [OF w this] p(1) ke have st: "status e = Active" by simp
    from wf_entryD(1) [OF w] p(1,3) ke have n: "item_at (items v) k = JNode (node e)"
      by (auto simp: from_item_def)
    from inside [of k] p(2) ke obtain r where
      r: "(k, \<lparr>status = Active, node = r\<rparr>) \<in> set ?T'" by auto
    from wf_entryD(1) [OF w' r] p(3) ke n have "r = node e"
      by (auto simp: from_item_def it)
    with st have "\<lparr>status = Active, node = r\<rparr> = e" by (intro entry_eq) simp_all
    with r ke show ?thesis by simp
  qed
  have replaced: "\<exists>r. (fst p, \<lparr>status = Active, node = r\<rparr>) \<in> set ?T' \<and>
                      length (heap v) \<le> r \<and> r \<noteq> node (snd p) \<and> r \<in> set (container v')"
    if p: "p \<in> set ?T" "fst p \<in> ?R" "\<not> is_node (item_at (items v) (fst p))" for p
  proof -
    from inside [OF p(2)] p(3) obtain r where
      r: "(fst p, \<lparr>status = Active, node = r\<rparr>) \<in> set ?T'" "length (heap v) \<le> r"
      by auto
    from wf_entryD(2) [OF w, of "fst p" "snd p"] p(1) have "node (snd p) < length (heap v)"
      by simp
    with r(2) have "r \<noteq> node (snd p)" by simp
    moreover from wf_entryD(3) [OF w' r(1)] have "r \<in> set (container v')" by simp
    ultimately show ?thesis using r by blast
  qed
  have img: "(\<lambda>p. (fst p, status (snd p))) ` set ?T' = (\<lambda>p. (fst p, status (snd p))) ` set ?T"
  proof (intro set_eqI iffI)
    fix x assume "x \<in> (\<lambda>p. (fst p, status (snd p))) ` set ?T'"
    then obtain k e where ke: "(k, e) \<in> set ?T'" "x = (k, status e)" by auto
    show "x \<in> (\<lambda>p. (fst p, status (snd p))) ` set ?T"
    proof (cases "k \<in> ?R")
      case True
      from inside [OF True] obtain r where "(k, \<lparr>status = Active, node = r\<rparr>) \<in> set ?T'"
        by blast
      from key_unique [OF dk' ke(1) this] have st: "status e = Active" by auto
      from True same have "k \<in> set (active_indices v)" by simp
      then obtain e0 where "(k, e0) \<in> set ?T" "status e0 = Active"
        by (auto simp: active_indices_def)
      then have "(fst (k, e0), status (snd (k, e0))) \<in> (\<lambda>p. (fst p, status (snd p))) ` set ?T"
        by (intro imageI)
      with \<open>status e0 = Active\<close> st ke(2) show ?thesis by simp
    next
      case False
      from outside [OF False, of e] ke(1) obtain s where
        s: "status e = Stale" "(k, e\<lparr>status := s\<rparr>) \<in> set ?T" by blast
      from False same have "k \<notin> set (active_indices v)" by simp
      from inactive_entry [OF this s(2)] have "s = Stale" by simp
      from s(2) have "(fst (k, e\<lparr>status := s\<rparr>), status (snd (k, e\<lparr>status := s\<rparr>)))
            \<in> (\<lambda>p. (fst p, status (snd p))) ` set ?T"
        by (intro imageI)
      with \<open>s = Stale\<close> s(1) ke(2) show ?thesis by simp
    qed
  next
    fix x assume "x \<in> (\<lambda>p. (fst p, status (snd p))) ` set ?T"
    then obtain k e where ke: "(k, e) \<in> set ?T" "x = (k, status e)" by auto
    show "x \<in> (\<lambda>p. (fst p, status (snd p))) ` set ?T'"
    proof (cases "k \<in> ?R")
      case True
      with same have "k \<in> set (active_indices v)" by simp
      from active_entry [OF w this ke(1)] have st: "status e = Active" .
      from inside [OF True] obtain r where r: "(k, \<lparr>status = Active, node = r\<rparr>) \<in> set ?T'"
        by blast
      then have "(fst (k, \<lparr>status = Active, node = r\<rparr>), status (snd (k, \<lparr>status = Active, node = r\<rparr>)))
            \<in> (\<lambda>p. (fst p, status (snd p))) ` set ?T'"
        by (intro imageI)
      with st ke(2) show ?thesis by simp
    next
      case False
      with keep_out [of "(k, e)"] ke(1) have "(k, e) \<in> set ?T'" by simp
      then have "(fst (k, e), status (snd (k, e))) \<in> (\<lambda>p. (fst p, status (snd p))) ` set ?T'"
        by (intro imageI)
      with ke(2) show ?thesis by simp
    qed
  qed
  have ent: "\<forall>p \<in> set ?T.
              (fst p \<notin> ?R \<or> is_node (item_at (items v) (fst p)) \<longrightarrow> p \<in> set ?T') \<and>
              (fst p \<in> ?R \<and> \<not> is_node (item_at (items v) (fst p)) \<longrightarrow>
                 (\<exists>r. (fst p, \<lparr>status = Active, node = r\<rparr>) \<in> set ?T' \<and>
                      length (heap v) \<le> r \<and> r \<noteq> node (snd p) \<and> r \<in> set (container v')))"
    using keep_out keep_node replaced by blast
  from rc img renderChunk_keeps_nodes [OF rc] ent show ?thesis
    by (intro exI [of _ v'] conjI)
qed

theorem replan_same_range_witness:
  "config_ok example_config example_doc \<and>
   VirtualList example_config example_doc = Inr example_v0 \<and>
   run [] example_v0 = Inr example_v0 \<and>
   set (active_indices example_v0) = {0..<finalItem 0 example_v0} \<and>
   (\<exists>v'. renderChunk 0 example_v0 = Inr v' \<and>
           (\<lambda>p. (fst p, status (snd p))) ` set (itemsInContainer v') =
             (\<lambda>p. (fst p, status (snd p))) ` set (itemsInContainer example_v0) \<and>
           set (container example_v0) \<subseteq> set (container v') \<and>
           (\<forall>p \<in> set (itemsInContainer example_v0).
              (fst p \<notin> {0..<finalItem 0 example_v0} \<or>
               is_node (item_at (items example_v0) (fst p)) \<longrightarrow>
                 p \<in> set (itemsInContainer v')) \<and>
              (fst p \<in> {0..<finalItem 0 example_v0} \<and>
               \<not> is_node (item_at (items example_v0) (fst p)) \<longrightarrow>
                 (\<exists>r. (fst p, \<lparr>status = Active, node = r\<rparr>) \<in> set (itemsInContainer v') \<and>
                      length (heap example_v0) \<le> r \<and> r \<noteq> node (snd p) \<and>
                      r \<in> set (container v'))))) \<and>
   (0, \<lparr>status = Active, node = 2\<rparr>) \<in> set (itemsInContainer example_v0) \<and>
   \<not> is_node (item_at (items example_v0) 0) \<and>
   (1, \<lparr>status = Active, node = 0\<rparr>) \<in> set (itemsInContainer example_v0) \<and>
   is_node (item_at (items example_v0) 1)"
proof -
  have r: "run [] example_v0 = Inr example_v0"
    by simp
  have s: "set (active_indices example_v0) = {0..<finalItem 0 example_v0}"
    unfolding example_v0_def by code_simp
  have e0: "(0, \<lparr>status = Active, node = 2\<rparr>) \<in> set (itemsInContainer example_v0)"
    unfolding example_v0_def by code_simp
  have n0: "\<not> is_node (item_at (items example_v0) 0)"
    unfolding example_v0_def by code_simp
  have e1: "(1, \<lparr>status = Active, node = 0\<rparr>) \<in> set (itemsInContainer example_v0)"
    unfolding example_v0_def by code_simp
  have n1: "is_node (item_at (items example_v0) 1)"
    unfolding example_v0_def by code_simp
  show ?thesis
    using example_ok example_v0_eq r s e0 n0 e1 n1
      replan_same_range [OF example_ok example_v0_eq r s]
    by blast
qed

section \<open>Which rows a re-plan creates\<close>

text \<open>
  Claim C4 says that a re-plan calls the row factory only for indices that are not already
  Active, and that a Stale entry inside the new range is flipped back to Active with the node
  it has. In the example, row 0 (a string) is Active with node 2 after construction, and the
  re-plan at offset 2 gives it node 7, which did not exist before (the heap had 7 elements,
  at addresses 0 to 6). After the re-plan at offset 8, row 0 is Stale with node 2; the
  re-plan at offset 0 makes it Active with node 11, again a node that did not exist (the heap
  had 11 elements).
\<close>

theorem replan_creates_rows_counterexample:
  "VirtualList example_config example_doc = Inr example_v0 \<and>
   run [Scroll 2 1000] example_v0 = Inr example_at_2 \<and>
   map_of (itemsInContainer example_v0) 0 = Some \<lparr>status = Active, node = 2\<rparr> \<and>
   length (heap example_v0) = 7 \<and>
   map_of (itemsInContainer example_at_2) 0 = Some \<lparr>status = Active, node = 7\<rparr> \<and>
   run [Scroll 8 1000] example_v0 = Inr example_at_8 \<and>
   map_of (itemsInContainer example_at_8) 0 = Some \<lparr>status = Stale, node = 2\<rparr> \<and>
   length (heap example_at_8) = 11 \<and>
   run [Scroll 8 1000, Scroll 0 1010] example_v0 = Inr example_back \<and>
   map_of (itemsInContainer example_back) 0 = Some \<lparr>status = Active, node = 11\<rparr>"
proof -
  have "map_of (itemsInContainer example_v0) 0 = Some \<lparr>status = Active, node = 2\<rparr>"
    unfolding example_v0_def by code_simp
  moreover have "length (heap example_v0) = 7"
    unfolding example_v0_def by code_simp
  moreover have "map_of (itemsInContainer example_at_2) 0 = Some \<lparr>status = Active, node = 7\<rparr>"
    unfolding example_at_2_def example_v0_def by code_simp
  moreover have "map_of (itemsInContainer example_at_8) 0 = Some \<lparr>status = Stale, node = 2\<rparr>"
    unfolding example_at_8_def example_v0_def by code_simp
  moreover have "length (heap example_at_8) = 11"
    unfolding example_at_8_def example_v0_def by code_simp
  moreover have "map_of (itemsInContainer example_back) 0 = Some \<lparr>status = Active, node = 11\<rparr>"
    unfolding example_back_def example_v0_def by code_simp
  ultimately show ?thesis
    using example_v0_eq example_at_2_eq example_at_8_eq example_back_eq by blast
qed

text \<open>
  Claim C4, amended. A re-plan calls the row factory for every index of the new range, whether
  or not the index is in the table, and the index ends Active with the node the factory
  returned, which is in the visual tree: for a pre-built element that element, so an entry
  that was in the table keeps its node; for every other item a node created during this
  re-plan. Entries outside the range are Stale afterwards and keep their nodes.
\<close>

theorem replan_creates_rows:
  assumes ok: "config_ok c doc" and init: "VirtualList c doc = Inr v0" and reach: "run es v0 = Inr v"
  shows "\<exists>v'. renderChunk from v = Inr v' \<and>
           (\<forall>i \<in> {from..<finalItem from v}.
              \<exists>r. map_of (itemsInContainer v') i = Some \<lparr>status = Active, node = r\<rparr> \<and>
                  r \<in> set (container v') \<and>
                  (if is_node (item_at (items v) i) then item_at (items v) i = JNode r
                   else length (heap v) \<le> r \<and> r < length (heap v'))) \<and>
           (\<forall>p \<in> set (itemsInContainer v).
              fst p \<in> {from..<finalItem from v} \<and> is_node (item_at (items v) (fst p)) \<longrightarrow>
                map_of (itemsInContainer v') (fst p) = Some \<lparr>status = Active, node = node (snd p)\<rparr>) \<and>
           (\<forall>p \<in> set (itemsInContainer v).
              fst p \<notin> {from..<finalItem from v} \<longrightarrow>
                map_of (itemsInContainer v') (fst p) = Some \<lparr>status = Stale, node = node (snd p)\<rparr>)"
proof -
  note w = reachable_wf(1) [OF ok init reach]
  from renderChunk_wf [OF w, of "from"] obtain v' where
    rc: "renderChunk from v = Inr v'" and w': "wf [] v'" by blast
  let ?T = "itemsInContainer v" and ?T' = "itemsInContainer v'"
  let ?R = "{from..<finalItem from v}"
  note tab = renderChunk_table [OF rc]
  have it: "items v' = items v"
    using renderChunk_frame(1) [OF rc] by (simp add: same_config_def)
  have dk': "distinct (map fst ?T')" using w' by (simp add: wf_def)
  have inside: "\<exists>r. map_of ?T' i = Some \<lparr>status = Active, node = r\<rparr> \<and>
                  r \<in> set (container v') \<and>
                  (if is_node (item_at (items v) i) then item_at (items v) i = JNode r
                   else length (heap v) \<le> r \<and> r < length (heap v'))" if "i \<in> ?R" for i
  proof -
    from tab(1) [of i] that obtain r where
      r: "(i, \<lparr>status = Active, node = r\<rparr>) \<in> set ?T'"
        "is_node (item_at (items v) i) \<or> length (heap v) \<le> r"
      by auto
    from r(1) dk' have "map_of ?T' i = Some \<lparr>status = Active, node = r\<rparr>" by simp
    moreover note wf_entryD [OF w' r(1)]
    moreover from \<open>from_item (items v') (i, \<lparr>status = Active, node = r\<rparr>)\<close>
    have "is_node (item_at (items v) i) \<Longrightarrow> item_at (items v) i = JNode r"
      by (simp add: from_item_def it)
    ultimately show ?thesis using r(2) by auto
  qed
  have prebuilt: "map_of ?T' (fst p) = Some \<lparr>status = Active, node = node (snd p)\<rparr>"
    if p: "p \<in> set ?T" "fst p \<in> ?R" "is_node (item_at (items v) (fst p))" for p
  proof -
    from inside [OF p(2)] p(3) obtain r where
      r: "map_of ?T' (fst p) = Some \<lparr>status = Active, node = r\<rparr>"
         "item_at (items v) (fst p) = JNode r"
      by auto
    from wf_entryD(1) [OF w, of "fst p" "snd p"] p(1,3) r(2) have "node (snd p) = r"
      by (simp add: from_item_def)
    with r(1) show ?thesis by simp
  qed
  have outside: "map_of ?T' (fst p) = Some \<lparr>status = Stale, node = node (snd p)\<rparr>"
    if p: "p \<in> set ?T" "fst p \<notin> ?R" for p
  proof -
    let ?e = "\<lparr>status = Stale, node = node (snd p)\<rparr>"
    have eq: "?e\<lparr>status := status (snd p)\<rparr> = snd p" by simp
    from p(1) have "(fst p, snd p) \<in> set ?T" by simp
    then have "(fst p, ?e\<lparr>status := status (snd p)\<rparr>) \<in> set ?T" by (simp only: eq)
    then have "\<exists>s. (fst p, ?e\<lparr>status := s\<rparr>) \<in> set ?T" by (rule exI)
    with tab(2) [of "fst p" ?e] p(2) have "(fst p, ?e) \<in> set ?T'" by simp
    with dk' show ?thesis by simp
  qed
  show ?thesis
    using rc inside prebuilt outside by (intro exI [of _ v'] conjI ballI impI) blast+
qed

theorem replan_creates_rows_witness:
  "config_ok example_config example_doc \<and>
   VirtualList example_config example_doc = Inr example_v0 \<and>
   run [Scroll 8 1000] example_v0 = Inr example_at_8 \<and>
   (\<exists>v'. renderChunk 0 example_at_8 = Inr v' \<and>
           (\<forall>i \<in> {0..<finalItem 0 example_at_8}.
              \<exists>r. map_of (itemsInContainer v') i = Some \<lparr>status = Active, node = r\<rparr> \<and>
                  r \<in> set (container v') \<and>
                  (if is_node (item_at (items example_at_8) i)
                   then item_at (items example_at_8) i = JNode r
                   else length (heap example_at_8) \<le> r \<and> r < length (heap v'))) \<and>
           (\<forall>p \<in> set (itemsInContainer example_at_8).
              fst p \<in> {0..<finalItem 0 example_at_8} \<and>
              is_node (item_at (items example_at_8) (fst p)) \<longrightarrow>
                map_of (itemsInContainer v') (fst p) =
                  Some \<lparr>status = Active, node = node (snd p)\<rparr>) \<and>
           (\<forall>p \<in> set (itemsInContainer example_at_8).
              fst p \<notin> {0..<finalItem 0 example_at_8} \<longrightarrow>
                map_of (itemsInContainer v') (fst p) =
                  Some \<lparr>status = Stale, node = node (snd p)\<rparr>)) \<and>
   finalItem 0 example_at_8 = 6 \<and>
   (1, \<lparr>status = Stale, node = 0\<rparr>) \<in> set (itemsInContainer example_at_8) \<and>
   is_node (item_at (items example_at_8) 1) \<and>
   (7, \<lparr>status = Active, node = 8\<rparr>) \<in> set (itemsInContainer example_at_8)"
proof -
  have f: "finalItem 0 example_at_8 = 6"
    unfolding example_at_8_def example_v0_def by code_simp
  have e1: "(1, \<lparr>status = Stale, node = 0\<rparr>) \<in> set (itemsInContainer example_at_8)"
    unfolding example_at_8_def example_v0_def by code_simp
  have n1: "is_node (item_at (items example_at_8) 1)"
    unfolding example_at_8_def example_v0_def by code_simp
  have e7: "(7, \<lparr>status = Active, node = 8\<rparr>) \<in> set (itemsInContainer example_at_8)"
    unfolding example_at_8_def example_v0_def by code_simp
  show ?thesis
    using example_ok example_v0_eq example_at_8_eq f e1 n1 e7
      replan_creates_rows [OF example_ok example_v0_eq example_at_8_eq, of 0]
    by blast
qed

section \<open>How many rows are in the container\<close>

text \<open>
  Claim C5 says that the container never holds more than \<open>2 * min(bufferSize, totalRows)\<close>
  row nodes. Rows are removed only by the reclamation timer, and only once 100 ms have passed
  without a scroll event: in a list of thirty rows with a buffer of six, construction, a
  scroll to offset 10 and a scroll to offset 20 ten milliseconds later leave three windows in
  the container, the six Active rows 18 to 23 and twelve Stale ones, 18 row nodes against a
  bound of 12.
\<close>

theorem container_rows_counterexample:
  "VirtualList long_config [] = Inr long_v0 \<and>
   run [Scroll 10 1000, Scroll 20 1010] long_v0 = Inr long_far \<and>
   length (container long_far) - 1 = 18 \<and>
   2 * min (cachedItemsLen long_far) (totalRows long_far) = 12 \<and>
   active_indices long_far = [18, 19, 20, 21, 22, 23] \<and>
   length (stale_nodes long_far) = 12"
proof -
  have "VirtualList long_config [] = Inr long_v0"
    unfolding long_v0_def by code_simp
  moreover have "run [Scroll 10 1000, Scroll 20 1010] long_v0 = Inr long_far"
    unfolding long_far_def long_v0_def by code_simp
  moreover have "length (container long_far) - 1 = 18"
    unfolding long_far_def long_v0_def by code_simp
  moreover have "2 * min (cachedItemsLen long_far) (totalRows long_far) = 12"
    unfolding long_far_def long_v0_def by code_simp
  moreover have "active_indices long_far = [18, 19, 20, 21, 22, 23]"
    unfolding long_far_def long_v0_def by code_simp
  moreover have "length (stale_nodes long_far) = 12"
    unfolding long_far_def long_v0_def by code_simp
  ultimately show ?thesis by blast
qed

lemma finalItem_window:
  "finalItem from v - from \<le> min (cachedItemsLen v) (totalRows v)"
  unfolding finalItem_def by (cases "totalRows v < from + cachedItemsLen v") auto

text \<open>
  Claim C5, amended. Construction leaves at most \<open>min(bufferSize, totalRows)\<close> row nodes in
  the container (the scroller not counted), and a re-plan adds at most
  \<open>min(bufferSize, totalRows)\<close> to the number there was; so after construction and one re-plan
  there are at most \<open>2 * min(bufferSize, totalRows)\<close>. Nothing is said about states reached
  by several re-plans.
\<close>

theorem container_rows_bound:
  assumes ok: "config_ok c doc" and init: "VirtualList c doc = Inr v0" and reach: "run es v0 = Inr v"
  shows "length (container v0) - 1 \<le> min (cachedItemsLen v0) (totalRows v0) \<and>
         (\<exists>v'. renderChunk from v = Inr v' \<and>
            length (container v') - 1 \<le>
              length (container v) - 1 + min (cachedItemsLen v) (totalRows v)) \<and>
         (\<exists>v1. renderChunk from v0 = Inr v1 \<and>
            length (container v1) - 1 \<le> 2 * min (cachedItemsLen v0) (totalRows v0))"
proof -
  let ?i = "init_vlist c doc"
  from init have rc0: "renderChunk 0 ?i = Inr v0" by (simp add: VirtualList_def)
  have c0: "same_config ?i v0" using renderChunk_frame(1) [OF rc0] .
  have "length (container v0) \<le> length (container ?i) + (finalItem 0 ?i - 0)"
    using renderChunk_frame(5) [OF rc0] .
  moreover have "length (container ?i) = 1" by (simp add: init_vlist_def Let_def)
  moreover have "finalItem 0 ?i - 0 \<le> min (cachedItemsLen v0) (totalRows v0)"
    using finalItem_window [of 0 ?i] c0 by (simp add: same_config_def)
  ultimately have b0: "length (container v0) - 1 \<le> min (cachedItemsLen v0) (totalRows v0)"
    by linarith
  have step: "\<exists>v'. renderChunk from u = Inr v' \<and>
            length (container v') - 1 \<le>
              length (container u) - 1 + min (cachedItemsLen u) (totalRows u)"
    if "wf [] u" for u
  proof -
    from renderChunk_wf [OF that, of "from"] obtain v' where
      rc: "renderChunk from u = Inr v'" by blast
    from renderChunk_frame(5) [OF rc] finalItem_window [of "from" u]
    have "length (container v') - 1 \<le>
              length (container u) - 1 + min (cachedItemsLen u) (totalRows u)"
      by linarith
    with rc show ?thesis by blast
  qed
  have w0: "wf [] v0"
    using VirtualList_wf [OF ok] init by auto
  from step [OF w0] obtain v1 where "renderChunk from v0 = Inr v1"
    "length (container v1) - 1 \<le>
       length (container v0) - 1 + min (cachedItemsLen v0) (totalRows v0)"
    by blast
  with b0 have "renderChunk from v0 = Inr v1 \<and>
            length (container v1) - 1 \<le> 2 * min (cachedItemsLen v0) (totalRows v0)"
    by linarith
  then have two: "\<exists>v1. renderChunk from v0 = Inr v1 \<and>
            length (container v1) - 1 \<le> 2 * min (cachedItemsLen v0) (totalRows v0)"
    by (rule exI)
  from b0 step [OF reachable_wf(1) [OF ok init reach]] two show ?thesis
    by (intro conjI)
qed

theorem container_rows_bound_witness:
  "config_ok example_config example_doc \<and>
   VirtualList example_config example_doc = Inr example_v0 \<and>
   run [Scroll 8 1000] example_v0 = Inr example_at_8 \<and>
   length (container example_v0) - 1 \<le> min (cachedItemsLen example_v0) (totalRows example_v0) \<and>
   (\<exists>v'. renderChunk 0 example_at_8 = Inr v' \<and>
      length (container v') - 1 \<le>
        length (container example_at_8) - 1 +
          min (cachedItemsLen example_at_8) (totalRows example_at_8)) \<and>
   (\<exists>v1. renderChunk 0 example_v0 = Inr v1 \<and>
      length (container v1) - 1 \<le> 2 * min (cachedItemsLen example_v0) (totalRows example_v0)) \<and>
   length (container example_v0) - 1 = 6 \<and>
   length (container example_at_8) - 1 = 10"
proof -
  have a: "length (container example_v0) - 1 = 6"
    unfolding example_v0_def by code_simp
  have b: "length (container example_at_8) - 1 = 10"
    unfolding example_at_8_def example_v0_def by code_simp
  show ?thesis
    using example_ok example_v0_eq example_at_8_eq a b
      container_rows_bound [OF example_ok example_v0_eq example_at_8_eq, of 0]
    by blast
qed

section \<open>When a scroll event re-plans\<close>

lemma needs_repaint_iff:
  "needs_repaint scrollTop v \<longleftrightarrow>
     lastRepaintY v = None \<or> lastRepaintY v = Some 0 \<or>
     (\<exists>y. lastRepaintY v = Some y \<and> int (maxBuffer v) < \<bar>scrollTop - y\<bar>)"
  by (auto simp: needs_repaint_def split: option.splits)

text \<open>
  Claim C6. The handler tests \<open>!lastRepaintY\<close>, which holds for \<open>undefined\<close> and for \<open>0\<close>
  alike. In the example the list is scrolled to offset 8 and back to 0, so that the anchor
  is \<open>0\<close>; the next scroll event, at offset 1, lies within \<open>maxBuffer = 2\<close> of the anchor and
  is not the first one, and the handler re-plans all the same: the anchor becomes 1 and five
  new nodes are created.
\<close>

theorem onScroll_replans_at_anchor_zero:
  "VirtualList example_config example_doc = Inr example_v0 \<and>
   run [Scroll 8 1000, Scroll 0 1010] example_v0 = Inr example_back \<and>
   lastRepaintY example_back = Some 0 \<and>
   maxBuffer example_back = 2 \<and>
   \<bar>1 - 0\<bar> \<le> int (maxBuffer example_back) \<and>
   needs_repaint 1 example_back \<and>
   onScroll 1 1020 example_back = Inr example_back_1 \<and>
   lastRepaintY example_back_1 = Some 1 \<and>
   length (heap example_back) = 16 \<and>
   length (heap example_back_1) = 21 \<and>
   nodes_of (itemsInContainer example_back) \<noteq> nodes_of (itemsInContainer example_back_1)"
proof -
  have "lastRepaintY example_back = Some 0"
    unfolding example_back_def example_v0_def by code_simp
  moreover have m: "maxBuffer example_back = 2"
    unfolding example_back_def example_v0_def by code_simp
  moreover have "\<bar>1 - 0\<bar> \<le> int (maxBuffer example_back)"
    unfolding m by simp
  moreover have "needs_repaint 1 example_back"
    unfolding example_back_def example_v0_def by code_simp
  moreover have "onScroll 1 1020 example_back = Inr example_back_1"
    unfolding example_back_1_def example_back_def example_v0_def by code_simp
  moreover have "lastRepaintY example_back_1 = Some 1"
    unfolding example_back_1_def example_back_def example_v0_def by code_simp
  moreover have "length (heap example_back) = 16"
    unfolding example_back_def example_v0_def by code_simp
  moreover have "length (heap example_back_1) = 21"
    unfolding example_back_1_def example_back_def example_v0_def by code_simp
  moreover have "nodes_of (itemsInContainer example_back) \<noteq> nodes_of (itemsInContainer example_back_1)"
    unfolding example_back_1_def example_back_def example_v0_def by code_simp
  ultimately show ?thesis
    using example_v0_eq example_back_eq by blast
qed

section \<open>Reclamation\<close>

text \<open>
  Claim C7. In every state reached from construction, a tick of the reclamation timer more
  than 100 ms after the last scroll event succeeds, leaves in the table exactly the Active
  entries, and takes the node of every Stale entry out of the container, where the nodes of
  the Active entries remain. A tick at most 100 ms after the last scroll event returns the
  state as it was.
\<close>

theorem rmNodeInterval_sweep:
  assumes ok: "config_ok c doc" and init: "VirtualList c doc = Inr v0" and reach: "run es v0 = Inr v"
  shows "(100 < now - lastScrolled v \<longrightarrow>
           (\<exists>v'. rmNodeInterval now v = Inr v' \<and>
              itemsInContainer v' =
                filter (\<lambda>p. status (snd p) = Active) (itemsInContainer v) \<and>
              container v' = filter (\<lambda>r. r \<notin> set (stale_nodes v)) (container v) \<and>
              (\<forall>p \<in> set (itemsInContainer v).
                 status (snd p) = Active \<longrightarrow> node (snd p) \<in> set (container v')))) \<and>
         (now - lastScrolled v \<le> 100 \<longrightarrow> rmNodeInterval now v = Inr v)"
proof (intro conjI impI)
  note w = reachable_wf(1) [OF ok init reach]
  assume settled: "100 < now - lastScrolled v"
  from rmNodeInterval_acts [OF w settled] obtain v' where
    r: "rmNodeInterval now v = Inr v'"
    and t: "itemsInContainer v' = filter (\<lambda>p. status (snd p) = Active) (itemsInContainer v)"
    and k: "container v' = filter (\<lambda>r. r \<notin> set (stale_nodes v)) (container v)"
    by blast
  have "node (snd p) \<in> set (container v')"
    if "p \<in> set (itemsInContainer v)" "status (snd p) = Active" for p
    using active_not_stale_node [OF w that] by (simp add: k)
  with r t k show "\<exists>v'. rmNodeInterval now v = Inr v' \<and>
              itemsInContainer v' =
                filter (\<lambda>p. status (snd p) = Active) (itemsInContainer v) \<and>
              container v' = filter (\<lambda>r. r \<notin> set (stale_nodes v)) (container v) \<and>
              (\<forall>p \<in> set (itemsInContainer v).
                 status (snd p) = Active \<longrightarrow> node (snd p) \<in> set (container v'))"
    by blast
next
  assume "now - lastScrolled v \<le> 100"
  then show "rmNodeInterval now v = Inr v" by (rule rmNodeInterval_idle)
qed

theorem rmNodeInterval_sweep_witness:
  "config_ok example_config example_doc \<and>
   VirtualList example_config example_doc = Inr example_v0 \<and>
   run [Scroll 8 1000] example_v0 = Inr example_at_8 \<and>
   100 < 1200 - lastScrolled example_at_8 \<and>
   (\<exists>v'. rmNodeInterval 1200 example_at_8 = Inr v' \<and>
      itemsInContainer v' =
        filter (\<lambda>p. status (snd p) = Active) (itemsInContainer example_at_8) \<and>
      container v' = filter (\<lambda>r. r \<notin> set (stale_nodes example_at_8)) (container example_at_8) \<and>
      (\<forall>p \<in> set (itemsInContainer example_at_8).
         status (snd p) = Active \<longrightarrow> node (snd p) \<in> set (container v'))) \<and>
   1050 - lastScrolled example_at_8 \<le> 100 \<and>
   rmNodeInterval 1050 example_at_8 = Inr example_at_8 \<and>
   stale_nodes example_at_8 = [2, 0, 3, 4, 5, 6] \<and>
   container example_at_8 = [1, 2, 0, 3, 4, 5, 6, 7, 8, 9, 10] \<and>
   filter (\<lambda>r. r \<notin> set (stale_nodes example_at_8)) (container example_at_8) = [1, 7, 8, 9, 10]"
proof -
  have l: "lastScrolled example_at_8 = 1000"
    unfolding example_at_8_def example_v0_def by code_simp
  have a: "100 < 1200 - lastScrolled example_at_8" and b: "1050 - lastScrolled example_at_8 \<le> 100"
    unfolding l by simp_all
  have s: "stale_nodes example_at_8 = [2, 0, 3, 4, 5, 6]"
    unfolding example_at_8_def example_v0_def by code_simp
  have c: "container example_at_8 = [1, 2, 0, 3, 4, 5, 6, 7, 8, 9, 10]"
    unfolding example_at_8_def example_v0_def by code_simp
  have f: "filter (\<lambda>r. r \<notin> set (stale_nodes example_at_8)) (container example_at_8) = [1, 7, 8, 9, 10]"
    unfolding s c by simp
  show ?thesis
    using example_ok example_v0_eq example_at_8_eq a b s c f
      rmNodeInterval_sweep [OF example_ok example_v0_eq example_at_8_eq, of 1200]
      rmNodeInterval_sweep [OF example_ok example_v0_eq example_at_8_eq, of 1050]
    by blast
qed

text \<open>
  Claim C8. In every state reached from construction by any sequence of scroll events and
  ticks, an entry that is Active when the reclamation timer ticks is still in the table after
  the tick, and its node is still in the container. This includes an entry that went Stale
  and was made Active again by a later re-plan.
\<close>

theorem sweep_keeps_active:
  assumes ok: "config_ok c doc" and init: "VirtualList c doc = Inr v0" and reach: "run es v0 = Inr v"
    and entry: "(k, e) \<in> set (itemsInContainer v)" and active: "status e = Active"
  shows "\<exists>v'. rmNodeInterval now v = Inr v' \<and>
           (k, e) \<in> set (itemsInContainer v') \<and> node e \<in> set (container v')"
proof (cases "100 < now - lastScrolled v")
  case True
  note w = reachable_wf(1) [OF ok init reach]
  from rmNodeInterval_acts [OF w True] obtain v' where
    r: "rmNodeInterval now v = Inr v'"
    and t: "itemsInContainer v' = filter (\<lambda>p. status (snd p) = Active) (itemsInContainer v)"
    and c: "container v' = filter (\<lambda>r. r \<notin> set (stale_nodes v)) (container v)"
    by blast
  from entry active have "(k, e) \<in> set (itemsInContainer v')"
    by (simp add: t)
  moreover from active_not_stale_node [OF w, of "(k, e)"] entry active
  have "node e \<in> set (container v')"
    by (simp add: c)
  ultimately show ?thesis using r by blast
next
  case False
  note w = reachable_wf(1) [OF ok init reach]
  from False have "rmNodeInterval now v = Inr v" by (simp add: rmNodeInterval_def)
  moreover from wf_entryD(3) [OF w entry] have "node e \<in> set (container v)" .
  ultimately show ?thesis using entry by blast
qed

theorem sweep_keeps_active_witness:
  "config_ok example_config example_doc \<and>
   VirtualList example_config example_doc = Inr example_v0 \<and>
   run [Scroll 8 1000, Scroll 0 1010] example_v0 = Inr example_back \<and>
   (0, \<lparr>status = Active, node = 11\<rparr>) \<in> set (itemsInContainer example_back) \<and>
   status \<lparr>status = Active, node = 11\<rparr> = Active \<and>
   (\<exists>v'. rmNodeInterval 1200 example_back = Inr v' \<and>
      (0, \<lparr>status = Active, node = 11\<rparr>) \<in> set (itemsInContainer v') \<and>
      node \<lparr>status = Active, node = 11\<rparr> \<in> set (container v')) \<and>
   100 < 1200 - lastScrolled example_back \<and>
   stale_nodes example_back = [7, 8, 9, 10]"
proof -
  have e: "(0, \<lparr>status = Active, node = 11\<rparr>) \<in> set (itemsInContainer example_back)"
    unfolding example_back_def example_v0_def by code_simp
  have a: "status \<lparr>status = Active, node = 11\<rparr> = Active"
    by simp
  have l: "100 < 1200 - lastScrolled example_back"
    unfolding example_back_def example_v0_def by code_simp
  have s: "stale_nodes example_back = [7, 8, 9, 10]"
    unfolding example_back_def example_v0_def by code_simp
  show ?thesis
    using example_ok example_v0_eq example_back_eq e a l s
      sweep_keeps_active [OF example_ok example_v0_eq example_back_eq e a, of 1200]
    by blast
qed

section \<open>Reclamation in the second variant\<close>

text \<open>
  On items that are truthy or \<open>undefined\<close> the two variants render the same rows, so the
  invariants of src/vlist.js carry over to the second variant's scroll handler.
\<close>

lemma remove_last_children_eq: "remove_last_children c = take 1 c"
proof (induction c rule: remove_last_children.induct)
  case (1 c)
  show ?case
  proof (cases "length c > 1")
    case True
    with 1 have "remove_last_children c = take 1 (butlast c)"
      by (subst remove_last_children.simps) simp
    also have "\<dots> = take 1 c" using True by (simp add: butlast_conv_take)
    finally show ?thesis .
  next
    case False
    then show ?thesis by (subst remove_last_children.simps) simp
  qed
qed

lemma strict_item_at: "strict_items its \<Longrightarrow> truthy (item_at its i) \<or> is_undefined (item_at its i)"
  by (auto simp: strict_items_def item_at_def)

lemma generatorFn2_eq:
  assumes "truthy (item_at (items v) i) \<or> is_undefined (item_at (items v) i)"
  shows "generatorFn2 (items v) i (itemHeight v) (heap v) = generatorFn v i"
  using assms by (cases "item_at (items v) i") (auto simp: generatorFn2_def generatorFn_def Let_def)

lemma createRow2_eq:
  assumes "truthy (item_at (items v) i) \<or> is_undefined (item_at (items v) i)"
  shows "createRow i v =
           (case createRow2 i v of
              Inl e \<Rightarrow> Inl e
            | Inr (row, v') \<Rightarrow>
                Inr (row, v'\<lparr>itemsInContainer :=
                               tbl_set i \<lparr>status = Active, node = row\<rparr> (itemsInContainer v')\<rparr>))"
  unfolding createRow_def createRow2_def generatorFn2_eq [OF assms]
  by (auto split: prod.splits jsval.splits)

lemma render_rows2_eq:
  "strict_items (items v) \<Longrightarrow> render_rows2 is fragment v = render_rows is fragment v"
proof (induction "is" arbitrary: fragment v)
  case Nil
  then show ?case by simp
next
  case (Cons i rest)
  note eq = createRow2_eq [OF strict_item_at [OF Cons.prems], of i]
  show ?case
  proof (cases "createRow2 i v")
    case (Inl e)
    with eq show ?thesis by simp
  next
    case (Inr res)
    obtain row v' where res: "res = (row, v')" by (cases res)
    let ?v1 = "v'\<lparr>itemsInContainer :=
                    tbl_set i \<lparr>status = Active, node = row\<rparr> (itemsInContainer v')\<rparr>"
    from eq Inr res have cr: "createRow i v = Inr (row, ?v1)" by simp
    from createRow_fields(3) [OF cr] Cons.prems have "strict_items (items v')" by simp
    then have "strict_items (items (?v1\<lparr>container := removeAll row (container ?v1)\<rparr>))"
      by simp
    from Cons.IH [OF this] Inr res cr show ?thesis by simp
  qed
qed

lemma mark_stale_items [simp]: "items (mark_stale v) = items v"
  by (simp add: mark_stale_def)

lemma renderChunk2_eq: "strict_items (items v) \<Longrightarrow> renderChunk2 from v = renderChunk from v"
  by (simp add: renderChunk2_def renderChunk_def render_rows2_eq)

lemma onScroll2_eq: "strict_items (items v) \<Longrightarrow> onScroll2 s now v = onScroll s now v"
  by (simp add: onScroll2_def onScroll_def renderChunk2_eq)

lemma hd_removeAll: "c \<noteq> [] \<Longrightarrow> hd c \<noteq> r \<Longrightarrow> hd (removeAll r c) = hd c \<and> removeAll r c \<noteq> []"
  by (cases c) auto

lemma createRow_scroller:
  assumes wf: "wf fragment v" and sf: "scroller_first fragment v"
    and cr: "createRow i v = Inr (r, v')"
  shows "scroller_first (removeAll r fragment @ [r]) (v'\<lparr>container := removeAll r (container v')\<rparr>)"
proof -
  note f = createRow_fields [OF cr]
  let ?s = "hd (container v)"
  from sf have ne: "container v \<noteq> []" and lt: "?s < length (heap v)"
    and nf: "?s \<notin> set fragment" and nt: "?s \<notin> set (nodes_of (itemsInContainer v))"
    and ni: "JNode ?s \<notin> set (items v)"
    by (simp_all add: scroller_first_def)
  from createRow_Inr(2) [OF cr] have r: "r \<noteq> ?s" and len: "length (heap v) \<le> length (heap v')"
    using ni lt by (auto dest: item_at_mem)
  from hd_removeAll [OF ne r [symmetric]]
  have hd: "hd (removeAll r (container v)) = ?s" and ne': "removeAll r (container v) \<noteq> []"
    by simp_all
  have "?s \<notin> set (nodes_of (tbl_set i \<lparr>status = Active, node = r\<rparr> (itemsInContainer v)))"
    using nt r by (auto simp: nodes_of_def set_tbl_set)
  with hd ne' lt len nf r ni show ?thesis
    by (simp add: scroller_first_def f)
qed

lemma render_rows_scroller:
  "wf fragment v \<Longrightarrow> scroller_first fragment v \<Longrightarrow>
     render_rows is fragment v = Inr (fragment', v') \<Longrightarrow> scroller_first fragment' v'"
proof (induction "is" arbitrary: fragment v)
  case Nil
  then show ?case by simp
next
  case (Cons i rest)
  from Cons.prems(3) obtain r v1 where cr: "createRow i v = Inr (r, v1)"
    and rest: "render_rows rest (removeAll r fragment @ [r])
                 (v1\<lparr>container := removeAll r (container v1)\<rparr>) = Inr (fragment', v')"
    by (rule render_rows_ConsE)
  from createRow_wf [OF Cons.prems(1) cr] createRow_scroller [OF Cons.prems(1,2) cr] rest
  show ?case by (rule Cons.IH)
qed

lemma mark_stale_scroller: "scroller_first fragment v \<Longrightarrow> scroller_first fragment (mark_stale v)"
  by (simp add: scroller_first_def mark_stale_def nodes_of_def comp_def case_prod_beta)

lemma renderChunk_scroller:
  assumes "wf [] v" and "scroller_first [] v" and "renderChunk from v = Inr v'"
  shows "scroller_first [] v'"
proof -
  from assms(3) obtain fragment v1 where
    rr: "render_rows [from..<finalItem from v] [] (mark_stale v) = Inr (fragment, v1)"
    and v': "v' = v1\<lparr>container := container v1 @ fragment\<rparr>"
    by (rule renderChunk_Inr)
  from render_rows_scroller [OF mark_stale_wf [OF assms(1)] mark_stale_scroller [OF assms(2)] rr]
  show ?thesis
    by (simp add: scroller_first_def v')
qed

lemma fold_append_nodes:
  "distinct (map (\<lambda>p. node (snd p)) ps) \<Longrightarrow> set (map (\<lambda>p. node (snd p)) ps) \<inter> set c = {} \<Longrightarrow>
     fold (\<lambda>p c. removeAll (node (snd p)) c @ [node (snd p)]) ps c = c @ map (\<lambda>p. node (snd p)) ps"
proof (induction ps arbitrary: c)
  case Nil
  then show ?case by simp
next
  case (Cons p ps)
  from Cons.prems have "node (snd p) \<notin> set c" by auto
  then have "removeAll (node (snd p)) c = c" by simp
  moreover from Cons.prems
  have "set (map (\<lambda>p. node (snd p)) ps) \<inter> set (c @ [node (snd p)]) = {}" by auto
  moreover from Cons.prems have "distinct (map (\<lambda>p. node (snd p)) ps)" by simp
  ultimately show ?case using Cons.IH [of "c @ [node (snd p)]"] by simp
qed

lemma throttledRmNode_acts:
  assumes wf: "wf [] v" and sf: "scroller_first [] v" and settled: "100 < now - lastScrolled v"
  shows "\<exists>v'. throttledRmNode now v = Inr v' \<and> wf [] v' \<and> scroller_first [] v' \<and>
           same_config v v' \<and>
           itemsInContainer v' = filter (\<lambda>p. status (snd p) = Active) (itemsInContainer v) \<and>
           container v' =
             hd (container v) # nodes_of (filter (\<lambda>p. status (snd p) = Active) (itemsInContainer v))"
proof -
  let ?kept = "filter (\<lambda>p. status (snd p) = Active) (itemsInContainer v)"
  let ?s = "hd (container v)"
  from sf have ne: "container v \<noteq> []" and nt: "?s \<notin> set (nodes_of (itemsInContainer v))"
    and lt: "?s < length (heap v)" and ni: "JNode ?s \<notin> set (items v)"
    by (simp_all add: scroller_first_def)
  from wf have dk: "distinct (map fst (itemsInContainer v))"
    and dn: "distinct (nodes_of (itemsInContainer v))"
    by (simp_all add: wf_def)
  have one: "remove_last_children (container v) = [?s]"
    unfolding remove_last_children_eq using ne by (cases "container v") simp_all
  have dk': "distinct (map (\<lambda>p. node (snd p)) ?kept)"
    using dn unfolding nodes_of_def by (rule distinct_map_filter)
  have disj: "set (map (\<lambda>p. node (snd p)) ?kept) \<inter> set [?s] = {}"
    using nt by (auto simp: nodes_of_def)
  have c: "fold (\<lambda>p c. removeAll (node (snd p)) c @ [node (snd p)]) ?kept [?s] = ?s # nodes_of ?kept"
    using fold_append_nodes [OF dk' disj] by (simp add: nodes_of_def)
  define v' where "v' = v\<lparr>itemsInContainer := ?kept, container := ?s # nodes_of ?kept\<rparr>"
  have fields: "itemsInContainer v' = ?kept" "container v' = ?s # nodes_of ?kept"
    "heap v' = heap v" "items v' = items v" "same_config v v'"
    by (simp_all add: v'_def same_config_def)
  have "throttledRmNode now v =
      Inr (v\<lparr>itemsInContainer := ?kept,
             container := fold (\<lambda>p c. removeAll (node (snd p)) c @ [node (snd p)]) ?kept
                            (remove_last_children (container v))\<rparr>)"
    using settled by (simp add: throttledRmNode_def Let_def)
  then have r: "throttledRmNode now v = Inr v'"
    unfolding one c v'_def .
  have w': "wf [] v'"
    unfolding wf_def fields
  proof (intro conjI ballI)
    show "items_ok (items v) (length (heap v))" using wf by (simp add: wf_def)
    show "distinct (map fst ?kept)" using dk by (rule distinct_map_filter)
    show "distinct (nodes_of ?kept)" using dk' by (simp only: nodes_of_def)
  next
    fix p assume p: "p \<in> set ?kept"
    then have p0: "p \<in> set (itemsInContainer v)" by simp
    from wf p0 have *: "node (snd p) < length (heap v)" "from_item (items v) p"
      unfolding wf_def by blast+
    show "node (snd p) < length (heap v)" by (rule *)
    have "node (snd p) \<in> set (nodes_of ?kept)"
      unfolding nodes_of_def set_map using p by (rule imageI)
    then show "node (snd p) \<in> set (?s # nodes_of ?kept) \<union> set []" by simp
    show "from_item (items v) p" by (rule *)
  qed
  have "?s \<notin> set (nodes_of ?kept)"
    using nt by (auto simp: nodes_of_def)
  then have s': "scroller_first [] v'"
    unfolding scroller_first_def fields using lt ni by simp
  show ?thesis
    using r w' s' fields by blast
qed

lemma onScroll_scroller:
  assumes "wf [] v" and "scroller_first [] v" and "onScroll s now v = Inr v'"
  shows "scroller_first [] v'"
proof (cases "needs_repaint s v")
  case True
  with assms(3) obtain v1 where rc: "renderChunk (first_row s v) v = Inr v1"
    and v': "v' = v1\<lparr>lastRepaintY := Some s, lastScrolled := now\<rparr>"
    by (auto simp: onScroll_def split: sum.splits)
  from renderChunk_scroller [OF assms(1,2) rc] show ?thesis
    by (simp add: v' scroller_first_def)
next
  case False
  with assms(2,3) show ?thesis
    by (auto simp: onScroll_def scroller_first_def)
qed

lemma step2_inv:
  assumes "wf [] v" and "scroller_first [] v" and "strict_items (items v)"
  shows "\<exists>v'. step2 e v = Inr v' \<and> wf [] v' \<and> scroller_first [] v' \<and> same_config v v'"
proof (cases e)
  case (Scroll s now)
  from onScroll_wf [OF assms(1), of s now] obtain v' where
    o: "onScroll s now v = Inr v'" and w: "wf [] v'" and c: "same_config v v'" by blast
  from onScroll_scroller [OF assms(1,2) o] o w c Scroll assms(3) show ?thesis
    by (simp add: onScroll2_eq)
next
  case (Tick now)
  show ?thesis
  proof (cases "100 < now - lastScrolled v")
    case True
    from throttledRmNode_acts [OF assms(1,2) True] Tick show ?thesis by auto
  next
    case False
    with assms Tick show ?thesis by (simp add: throttledRmNode_def)
  qed
qed

lemma run2_inv:
  "wf [] v \<Longrightarrow> scroller_first [] v \<Longrightarrow> strict_items (items v) \<Longrightarrow>
     \<exists>v'. run2 es v = Inr v' \<and> wf [] v' \<and> scroller_first [] v' \<and> same_config v v'"
proof (induction es arbitrary: v)
  case Nil
  then show ?case by simp
next
  case (Cons e es)
  from step2_inv [OF Cons.prems, of e] obtain v1 where
    s: "step2 e v = Inr v1" and w: "wf [] v1" and f: "scroller_first [] v1"
    and c: "same_config v v1"
    by blast
  from c Cons.prems(3) have "strict_items (items v1)" by (simp add: same_config_def)
  from Cons.IH [OF w f this] obtain v' where
    "run2 es v1 = Inr v'" "wf [] v'" "scroller_first [] v'" "same_config v1 v'"
    by blast
  with s c show ?case
    by (auto intro: same_config_trans)
qed

lemma init_vlist_scroller:
  assumes "config_ok c doc"
  shows "scroller_first [] (init_vlist c doc)"
proof -
  have "JNode (length doc) \<notin> set (case config_items c of Some xs \<Rightarrow> xs | None \<Rightarrow> [])"
  proof
    assume "JNode (length doc) \<in> set (case config_items c of Some xs \<Rightarrow> xs | None \<Rightarrow> [])"
    with assms have "length doc < length doc"
      unfolding config_ok_def by (rule items_ok_node_below)
    then show False by simp
  qed
  then show ?thesis
    by (simp add: scroller_first_def init_vlist_def Let_def nodes_of_def)
qed

lemma reachable2_inv:
  assumes ok: "config_ok c doc"
    and strict: "strict_items (case config_items c of Some xs \<Rightarrow> xs | None \<Rightarrow> [])"
    and init: "VirtualList2 c doc = Inr v0" and reach: "run2 es v0 = Inr v"
  shows "wf [] v" and "scroller_first [] v"
proof -
  let ?i = "init_vlist c doc"
  have si: "strict_items (items ?i)" using strict by (simp add: init_vlist_def Let_def)
  from init have rc: "renderChunk 0 ?i = Inr v0"
    by (simp add: VirtualList2_def renderChunk2_eq [OF si])
  from renderChunk_wf [OF init_vlist_wf [OF ok], of 0] rc have w0: "wf [] v0" by simp
  from renderChunk_scroller [OF init_vlist_wf [OF ok] init_vlist_scroller [OF ok] rc]
  have f0: "scroller_first [] v0" .
  from renderChunk_frame(1) [OF rc] si have s0: "strict_items (items v0)"
    by (simp add: same_config_def)
  from run2_inv [OF w0 f0 s0, of es] reach show "wf [] v" and "scroller_first [] v"
    by auto
qed

text \<open>
  The second variant's reclamation, in every state reached from its construction over such
  items: fired more than 100 ms after the last scroll event it keeps exactly the Active entries
  and leaves in the container the scroller followed by their nodes, so no Stale entry's node
  and every Active entry's node is there; fired earlier it returns the state as it was.
\<close>

lemma throttledRmNode_sweep:
  assumes ok: "config_ok c doc"
    and strict: "strict_items (case config_items c of Some xs \<Rightarrow> xs | None \<Rightarrow> [])"
    and init: "VirtualList2 c doc = Inr v0" and reach: "run2 es v0 = Inr v"
  shows "(100 < now - lastScrolled v \<longrightarrow>
           (\<exists>v'. throttledRmNode now v = Inr v' \<and>
              itemsInContainer v' =
                filter (\<lambda>p. status (snd p) = Active) (itemsInContainer v) \<and>
              container v' = hd (container v) # nodes_of (itemsInContainer v') \<and>
              set (stale_nodes v) \<inter> set (container v') = {} \<and>
              (\<forall>p \<in> set (itemsInContainer v).
                 status (snd p) = Active \<longrightarrow> node (snd p) \<in> set (container v')))) \<and>
         (now - lastScrolled v \<le> 100 \<longrightarrow> throttledRmNode now v = Inr v)"
proof (intro conjI impI)
  note w = reachable2_inv(1) [OF ok strict init reach]
  note f = reachable2_inv(2) [OF ok strict init reach]
  assume settled: "100 < now - lastScrolled v"
  from throttledRmNode_acts [OF w f settled] obtain v' where
    r: "throttledRmNode now v = Inr v'"
    and t: "itemsInContainer v' = filter (\<lambda>p. status (snd p) = Active) (itemsInContainer v)"
    and k: "container v' =
             hd (container v) # nodes_of (filter (\<lambda>p. status (snd p) = Active) (itemsInContainer v))"
    by blast
  have "n \<notin> set (container v')" if n: "n \<in> set (stale_nodes v)" for n
  proof
    assume "n \<in> set (container v')"
    then consider "n = hd (container v)" | p where "p \<in> set (itemsInContainer v)"
      "status (snd p) = Active" "n = node (snd p)"
      by (auto simp: k nodes_of_def)
    then show False
    proof cases
      case 1
      with n f show False by (auto simp: scroller_first_def stale_nodes_def nodes_of_def)
    next
      case 2
      from active_not_stale_node(1) [OF w 2(1,2)] n 2(3) show False by simp
    qed
  qed
  then have d: "set (stale_nodes v) \<inter> set (container v') = {}" by auto
  have a: "node (snd p) \<in> set (container v')"
    if "p \<in> set (itemsInContainer v)" "status (snd p) = Active" for p
  proof -
    from that have "p \<in> set (filter (\<lambda>p. status (snd p) = Active) (itemsInContainer v))"
      by simp
    then have "node (snd p) \<in> set (nodes_of (filter (\<lambda>p. status (snd p) = Active) (itemsInContainer v)))"
      unfolding nodes_of_def set_map by (rule imageI)
    then show ?thesis by (simp add: k)
  qed
  from k t have k': "container v' = hd (container v) # nodes_of (itemsInContainer v')"
    by simp
  from r t k' d a show "\<exists>v'. throttledRmNode now v = Inr v' \<and>
              itemsInContainer v' =
                filter (\<lambda>p. status (snd p) = Active) (itemsInContainer v) \<and>
              container v' = hd (container v) # nodes_of (itemsInContainer v') \<and>
              set (stale_nodes v) \<inter> set (container v') = {} \<and>
              (\<forall>p \<in> set (itemsInContainer v).
                 status (snd p) = Active \<longrightarrow> node (snd p) \<in> set (container v'))"
    by blast
next
  assume "now - lastScrolled v \<le> 100"
  then show "throttledRmNode now v = Inr v" by (simp add: throttledRmNode_def)
qed

text \<open>
  The two variants differ on rows whose entry a re-plan overwrote. After construction, a
  re-plan over the same rows 0 to 5 and a settled tick, the container of src/vlist.js still
  holds the five nodes 2 to 6 that no entry refers to any more; the second variant's
  container holds the scroller and the six nodes of the table.
\<close>

lemma overwritten_rows_survive_rmNodeInterval:
  "VirtualList strict_config example_doc = Inr strict_v0 \<and>
   run [Scroll 2 1000, Tick 1200] strict_v0 = Inr strict_swept \<and>
   nodes_of (itemsInContainer strict_swept) = [7, 0, 8, 9, 10, 11] \<and>
   container strict_swept = [1, 2, 3, 4, 5, 6, 7, 0, 8, 9, 10, 11]"
proof -
  have "VirtualList strict_config example_doc = Inr strict_v0"
    unfolding strict_v0_def by code_simp
  moreover have "run [Scroll 2 1000, Tick 1200] strict_v0 = Inr strict_swept"
    unfolding strict_swept_def strict_v0_def by code_simp
  moreover have "nodes_of (itemsInContainer strict_swept) = [7, 0, 8, 9, 10, 11]"
    unfolding strict_swept_def strict_v0_def by code_simp
  moreover have "container strict_swept = [1, 2, 3, 4, 5, 6, 7, 0, 8, 9, 10, 11]"
    unfolding strict_swept_def strict_v0_def by code_simp
  ultimately show ?thesis by blast
qed

lemma throttledRmNode_example:
  "VirtualList2 strict_config example_doc = Inr strict2_v0 \<and>
   run2 [Scroll 2 1000, Tick 1200] strict2_v0 = Inr strict2_swept \<and>
   nodes_of (itemsInContainer strict2_swept) = [7, 0, 8, 9, 10, 11] \<and>
   container strict2_swept = [1, 7, 0, 8, 9, 10, 11]"
proof -
  have "VirtualList2 strict_config example_doc = Inr strict2_v0"
    unfolding strict2_v0_def by code_simp
  moreover have "run2 [Scroll 2 1000, Tick 1200] strict2_v0 = Inr strict2_swept"
    unfolding strict2_swept_def strict2_v0_def by code_simp
  moreover have "nodes_of (itemsInContainer strict2_swept) = [7, 0, 8, 9, 10, 11]"
    unfolding strict2_swept_def strict2_v0_def by code_simp
  moreover have "container strict2_swept = [1, 7, 0, 8, 9, 10, 11]"
    unfolding strict2_swept_def strict2_v0_def by code_simp
  ultimately show ?thesis by blast
qed

section \<open>The default row factories\<close>

text \<open>
  Claim C9. For a string item the default factory returns an element whose text content is the
  item; for an item that is a pre-built element it returns that very element and leaves the
  document as it was; for an index below \<open>totalRows\<close> without an item it returns a new, empty
  \<open>div\<close>. Both variants of the factory do so, and a new element is allocated behind the
  existing ones, which stay as they are.
\<close>

theorem generatorFn_content:
  "(item_at (items v) i = JStr s \<longrightarrow>
      (\<exists>r hp. generatorFn v i = (JNode r, hp) \<and> r < length hp \<and> textContent (hp ! r) = s
              \<and> take (length (heap v)) hp = heap v) \<and>
      (\<exists>r hp. generatorFn2 (items v) i (itemHeight v) (heap v) = (JNode r, hp) \<and> r < length hp
              \<and> textContent (hp ! r) = s \<and> take (length (heap v)) hp = heap v)) \<and>
   (item_at (items v) i = JNode n \<longrightarrow>
      generatorFn v i = (JNode n, heap v) \<and>
      generatorFn2 (items v) i (itemHeight v) (heap v) = (JNode n, heap v)) \<and>
   (i < totalRows v \<and> item_at (items v) i = JUndefined \<longrightarrow>
      generatorFn v i =
        (JNode (length (heap v)), heap v @ [new_div\<lparr>height := Some (itemHeight v)\<rparr>]) \<and>
      generatorFn2 (items v) i (itemHeight v) (heap v) =
        (JNode (length (heap v)), heap v @ [new_div\<lparr>height := Some (itemHeight v)\<rparr>]) \<and>
      texts (new_div\<lparr>height := Some (itemHeight v)\<rparr>) = [])"
  by (cases "s = []")
     (auto simp: generatorFn_def generatorFn2_def textContent_def new_div_def nth_append Let_def)

theorem generatorFn_content_witness:
  "item_at (items (init_vlist example_config example_doc)) 0 = JStr ''row'' \<and>
   item_at (items (init_vlist example_config example_doc)) 1 = JNode 0 \<and>
   7 < totalRows (init_vlist example_config example_doc) \<and>
   item_at (items (init_vlist example_config example_doc)) 7 = JUndefined \<and>
   (\<exists>r hp. generatorFn (init_vlist example_config example_doc) 0 = (JNode r, hp) \<and>
      r < length hp \<and> textContent (hp ! r) = ''row'' \<and>
      take (length (heap (init_vlist example_config example_doc))) hp =
        heap (init_vlist example_config example_doc)) \<and>
   generatorFn (init_vlist example_config example_doc) 1 =
     (JNode 0, heap (init_vlist example_config example_doc)) \<and>
   generatorFn (init_vlist example_config example_doc) 7 =
     (JNode (length (heap (init_vlist example_config example_doc))),
      heap (init_vlist example_config example_doc) @
        [new_div\<lparr>height := Some (itemHeight (init_vlist example_config example_doc))\<rparr>])"
proof -
  let ?v = "init_vlist example_config example_doc"
  have a: "item_at (items ?v) 0 = JStr ''row''"
    by (simp add: example_defs item_at_def)
  have b: "item_at (items ?v) 1 = JNode 0"
    by (simp add: example_defs item_at_def)
  have c: "7 < totalRows ?v \<and> item_at (items ?v) 7 = JUndefined"
    by (simp add: example_defs item_at_def)
  show ?thesis
    using a b c generatorFn_content [of ?v 0 "''row''" 0] generatorFn_content [of ?v 1 "''row''" 0]
      generatorFn_content [of ?v 7 "''row''" 0]
    by blast
qed

text \<open>
  Claim C10. In src/vlist.js the factory tests the item by truthiness: for an index below
  \<open>totalRows\<close> whose item is the empty string, \<open>0\<close>, \<open>null\<close> or \<open>false\<close> it returns a new empty
  \<open>div\<close> of height \<open>itemHeight\<close>. The second variant tests \<open>typeof items[i] !== "undefined"\<close>
  and returns something else on each of these items: for the empty string an element with a
  text child, for the other three the item itself.
\<close>

theorem generatorFn_falsy:
  assumes "i < totalRows v"
    and "item_at (items v) i \<in> {JStr [], JNum 0, JNull, JBool False}"
  shows "generatorFn v i =
           (JNode (length (heap v)), heap v @ [new_div\<lparr>height := Some (itemHeight v)\<rparr>]) \<and>
         generatorFn2 (items v) i (itemHeight v) (heap v) \<noteq> generatorFn v i \<and>
         (item_at (items v) i = JStr [] \<longrightarrow>
            generatorFn2 (items v) i (itemHeight v) (heap v) =
              (JNode (length (heap v)),
               heap v @ [new_div\<lparr>texts := [[]], height := Some (itemHeight v)\<rparr>])) \<and>
         (item_at (items v) i \<noteq> JStr [] \<longrightarrow>
            generatorFn2 (items v) i (itemHeight v) (heap v) = (item_at (items v) i, heap v))"
  using assms by (auto simp: generatorFn_def generatorFn2_def new_div_def Let_def)

theorem generatorFn_falsy_witness:
  "2 < totalRows (init_vlist example_config example_doc) \<and>
   item_at (items (init_vlist example_config example_doc)) 2 = JStr [] \<and>
   generatorFn (init_vlist example_config example_doc) 2 =
     (JNode (length (heap (init_vlist example_config example_doc))),
      heap (init_vlist example_config example_doc) @
        [new_div\<lparr>height := Some (itemHeight (init_vlist example_config example_doc))\<rparr>]) \<and>
   generatorFn2 (items (init_vlist example_config example_doc)) 2
       (itemHeight (init_vlist example_config example_doc))
       (heap (init_vlist example_config example_doc)) =
     (JNode (length (heap (init_vlist example_config example_doc))),
      heap (init_vlist example_config example_doc) @
        [new_div\<lparr>texts := [[]],
                 height := Some (itemHeight (init_vlist example_config example_doc))\<rparr>])"
proof -
  let ?v = "init_vlist example_config example_doc"
  have a: "2 < totalRows ?v"
    by (simp add: example_defs)
  have b: "item_at (items ?v) 2 = JStr []"
    by (simp add: example_defs item_at_def)
  then have b': "item_at (items ?v) 2 \<in> {JStr [], JNum 0, JNull, JBool False}"
    by simp
  show ?thesis
    using a b generatorFn_falsy [OF a b'] by blast
qed

end
